theory Spec2Isabelle
  imports Main
begin

section \<open>Python strings\<close>

text \<open>
  A Python \<open>str\<close> is a sequence of Unicode code points, so a string is a list of
  natural numbers. \<open>lit\<close> turns an ASCII literal into such a list.
\<close>

type_synonym pystr = "nat list"

definition lit :: "string \<Rightarrow> pystr" where
  "lit s = map of_char s"

text \<open>
  The line boundaries of \<open>str.splitlines\<close> and the white space of \<open>str.strip\<close>, as
  CPython's Unicode tables give them. Every line boundary is white space.
\<close>

definition is_linebreak :: "nat \<Rightarrow> bool" where
  "is_linebreak c = (c \<in> {0x0A, 0x0B, 0x0C, 0x0D, 0x1C, 0x1D, 0x1E, 0x85, 0x2028, 0x2029})"

definition is_space :: "nat \<Rightarrow> bool" where
  "is_space c = (c \<in> {0x09, 0x0A, 0x0B, 0x0C, 0x0D, 0x1C, 0x1D, 0x1E, 0x1F, 0x20, 0x85, 0xA0,
      0x1680, 0x2000, 0x2001, 0x2002, 0x2003, 0x2004, 0x2005, 0x2006, 0x2007, 0x2008, 0x2009,
      0x200A, 0x2028, 0x2029, 0x202F, 0x205F, 0x3000})"

definition strip :: "pystr \<Rightarrow> pystr" where
  "strip s = rev (dropWhile is_space (rev (dropWhile is_space s)))"

text \<open>
  \<open>str.splitlines()\<close>: a carriage return followed by a line feed is one boundary, and a
  boundary at the very end opens no further line. The first argument is the line read so far.
\<close>

fun splitlines_from :: "pystr \<Rightarrow> pystr \<Rightarrow> pystr list" where
  "splitlines_from cur [] = (if cur = [] then [] else [cur])"
| "splitlines_from cur [c] =
     (if is_linebreak c then [cur] else [cur @ [c]])"
| "splitlines_from cur (c # d # cs) =
     (if c = 0x0D \<and> d = 0x0A then cur # splitlines_from [] cs
      else if is_linebreak c then cur # splitlines_from [] (d # cs)
      else splitlines_from (cur @ [c]) (d # cs))"

definition splitlines :: "pystr \<Rightarrow> pystr list" where
  "splitlines s = splitlines_from [] s"

text \<open>
  \<open>action, tid = data.split(":", 1)\<close>: the text before the first colon and the text after
  it; without a colon the unpacking into two names raises, which is \<open>None\<close> here.
\<close>

definition split_colon :: "pystr \<Rightarrow> (pystr \<times> pystr) option" where
  "split_colon d =
     (case dropWhile (\<lambda>c. c \<noteq> 0x3A) d of
        [] \<Rightarrow> None
      | _ # rest \<Rightarrow> Some (takeWhile (\<lambda>c. c \<noteq> 0x3A) d, rest))"

text \<open>
  \<open>str.lower()\<close> on the ASCII letters; other code points are kept as they are. The result
  is only ever compared with the ASCII word \<open>/start\<close>.
\<close>

definition lower :: "pystr \<Rightarrow> pystr" where
  "lower s = map (\<lambda>c. if 0x41 \<le> c \<and> c \<le> 0x5A then c + 0x20 else c) s"

section \<open>Tasks, sessions and reminder handles\<close>

datatype tier = Top | Mid | Extra

record task =
  task_id :: pystr
  task_text :: pystr
  task_prio :: tier
  task_done :: bool

text \<open>
  \<open>users[chat_id]\<close> is a dict with the keys \<open>tasks\<close>, \<open>pointer\<close> and \<open>reminder\<close>; the
  reminder is \<open>None\<close> or the handle of an asyncio task, here the index of that task in the
  list of all reminder tasks created so far.
\<close>

record session =
  tasks :: "task list"
  pointer :: nat
  reminder :: "nat option"

datatype error =
    ValidationError
  | ValueError
  | KeyError
  | StopIteration
  | GenerationError
  | SendError

text \<open>
  The life of an asyncio task running \<open>remind_loop\<close>: pending (asleep until the next
  interval), cancelled, finished by \<open>return\<close>, or finished by an exception.
\<close>

datatype status = Pending | Cancelled | Finished | Failed error

record timer =
  t_chat :: int
  t_task :: pystr
  t_status :: status

datatype body =
    MsgDayComplete
  | MsgMarkedDone
  | MsgWelcome
  | MsgFallback
  | MsgText pystr

datatype label = LabelDone | LabelStuck

type_synonym keyboard = "(label \<times> pystr) list"

text \<open>
  What a handler does to the outside world and to the reminder tasks, in the order it does
  it: a text generated, a message delivered, a callback answered, a reminder task created,
  \<open>cancel()\<close> called on a handle, a reminder task ended by itself.
\<close>

datatype effect =
    Generated pystr pystr
  | Sent int body "keyboard option"
  | Answered pystr
  | Armed int nat pystr
  | CancelCall int nat
  | Exited nat

record state =
  users :: "int \<Rightarrow> session option"
  timers :: "timer list"
  n_uuid :: nat
  n_io :: nat
  trace :: "effect list"

text \<open>
  The outside world: the identifier that the n-th call of \<open>uuid.uuid4()\<close> returns, and
  the outcome of the n-th request to the language model or to the messenger (\<open>None\<close>: the
  request raises; for the language model \<open>Some r\<close> is the text returned).
\<close>

record env =
  uuid4 :: "nat \<Rightarrow> pystr"
  io :: "nat \<Rightarrow> pystr option"

datatype 'a res = Ok 'a | Raise error

definition init_state :: state where
  "init_state = \<lparr>users = Map.empty, timers = [], n_uuid = 0, n_io = 0, trace = []\<rparr>"

definition andthen ::
  "(state \<Rightarrow> 'a res \<times> state) \<Rightarrow> ('a \<Rightarrow> state \<Rightarrow> 'b res \<times> state) \<Rightarrow> state \<Rightarrow> 'b res \<times> state" where
  "andthen m f s = (case m s of (Raise e, s') \<Rightarrow> (Raise e, s') | (Ok x, s') \<Rightarrow> f x s')"

definition emit :: "effect \<Rightarrow> state \<Rightarrow> state" where
  "emit e s = s\<lparr>trace := trace s @ [e]\<rparr>"

section \<open>External calls\<close>

definition gpt :: "env \<Rightarrow> pystr \<Rightarrow> pystr \<Rightarrow> state \<Rightarrow> pystr res \<times> state" where
  "gpt env role content s =
     (case io env (n_io s) of
        None \<Rightarrow> (Raise GenerationError, s\<lparr>n_io := Suc (n_io s)\<rparr>)
      | Some r \<Rightarrow> (Ok (strip r), emit (Generated role content) (s\<lparr>n_io := Suc (n_io s)\<rparr>)))"

definition send_message ::
  "env \<Rightarrow> int \<Rightarrow> body \<Rightarrow> keyboard option \<Rightarrow> state \<Rightarrow> unit res \<times> state" where
  "send_message env chat b kb s =
     (case io env (n_io s) of
        None \<Rightarrow> (Raise SendError, s\<lparr>n_io := Suc (n_io s)\<rparr>)
      | Some _ \<Rightarrow> (Ok (), emit (Sent chat b kb) (s\<lparr>n_io := Suc (n_io s)\<rparr>)))"

definition answer_callback_query :: "env \<Rightarrow> pystr \<Rightarrow> state \<Rightarrow> unit res \<times> state" where
  "answer_callback_query env qid s =
     (case io env (n_io s) of
        None \<Rightarrow> (Raise SendError, s\<lparr>n_io := Suc (n_io s)\<rparr>)
      | Some _ \<Rightarrow> (Ok (), emit (Answered qid) (s\<lparr>n_io := Suc (n_io s)\<rparr>)))"

section \<open>Helpers\<close>

definition build_keyboard :: "pystr \<Rightarrow> keyboard" where
  "build_keyboard tid = [(LabelDone, lit ''done:'' @ tid), (LabelStuck, lit ''stuck:'' @ tid)]"

text \<open>The \<open>while\<close> loop of \<open>next_task\<close>: skip the tasks that are done.\<close>

function advance :: "task list \<Rightarrow> nat \<Rightarrow> nat" where
  "advance ts p = (if p < length ts \<and> task_done (ts ! p) then advance ts (Suc p) else p)"
  by pat_completeness auto
termination
  by (relation "measure (\<lambda>(ts, p). length ts - p)") auto

declare advance.simps [simp del]

definition next_task :: "int \<Rightarrow> state \<Rightarrow> task option \<times> state" where
  "next_task chat s =
     (case users s chat of
        None \<Rightarrow> (None, s)
      | Some u \<Rightarrow>
          (let p = advance (tasks u) (pointer u)
           in (if p < length (tasks u) then Some (tasks u ! p) else None,
               s\<lparr>users := (users s)(chat \<mapsto> u\<lparr>pointer := p\<rparr>)\<rparr>)))"

text \<open>
  \<open>users[chat_id]["reminder"] = loop.create_task(remind_loop(chat_id, task.id))\<close>: the
  new task is pending and the session's handle now names it; nothing is done to the handle
  it replaces. The right-hand side is evaluated first, so the task is created before the
  session is looked up: for a chat without a session the lookup raises and the new task
  is left without an owner.
\<close>

definition create_reminder :: "int \<Rightarrow> pystr \<Rightarrow> state \<Rightarrow> unit res \<times> state" where
  "create_reminder chat tid s =
     (case users s chat of
        None \<Rightarrow>
          (Raise KeyError,
           emit (Armed chat (length (timers s)) tid)
             (s\<lparr>timers := timers s @ [\<lparr>t_chat = chat, t_task = tid, t_status = Pending\<rparr>]\<rparr>))
      | Some u \<Rightarrow>
          (let h = length (timers s)
           in (Ok (), emit (Armed chat h tid)
                 (s\<lparr>timers := timers s @ [\<lparr>t_chat = chat, t_task = tid, t_status = Pending\<rparr>],
                    users := (users s)(chat \<mapsto> u\<lparr>reminder := Some h\<rparr>)\<rparr>))))"

definition start_focus :: "env \<Rightarrow> int \<Rightarrow> state \<Rightarrow> unit res \<times> state" where
  "start_focus env chat s =
     (case next_task chat s of
        (None, s1) \<Rightarrow> send_message env chat MsgDayComplete None s1
      | (Some t, s1) \<Rightarrow>
          andthen (gpt env (lit ''coach'') (lit ''Start focusing on: '' @ task_text t))
            (\<lambda>msg. andthen (send_message env chat (MsgText msg) (Some (build_keyboard (task_id t))))
              (\<lambda>_. create_reminder chat (task_id t))) s1)"

text \<open>
  \<open>Task.cancelled()\<close> and \<open>Task.cancel()\<close> of asyncio: cancelling a task that is no
  longer pending changes nothing and raises nothing. The cancellation of a sleeping task is
  taken to be delivered at once.
\<close>

definition cancelled :: "nat \<Rightarrow> state \<Rightarrow> bool" where
  "cancelled h s = (h < length (timers s) \<and> t_status (timers s ! h) = Cancelled)"

definition cancel :: "int \<Rightarrow> nat \<Rightarrow> state \<Rightarrow> state" where
  "cancel chat h s =
     emit (CancelCall chat h)
       (if h < length (timers s) \<and> t_status (timers s ! h) = Pending
        then s\<lparr>timers := (timers s)[h := (timers s ! h)\<lparr>t_status := Cancelled\<rparr>]\<rparr>
        else s)"

section \<open>The reminder loop\<close>

text \<open>
  One pass through the body of \<open>while True\<close> in \<open>remind_loop\<close>, after the sleep has
  elapsed: \<open>Ok False\<close> when the body returns, \<open>Ok True\<close> when it reaches the end and the
  loop sleeps again, \<open>Raise\<close> when a request raises (the body catches nothing).
\<close>

definition remind_body :: "env \<Rightarrow> int \<Rightarrow> pystr \<Rightarrow> state \<Rightarrow> bool res \<times> state" where
  "remind_body env chat tid s =
     (case users s chat of
        None \<Rightarrow> (Ok False, s)
      | Some u \<Rightarrow>
          (case find (\<lambda>t. task_id t = tid) (tasks u) of
             None \<Rightarrow> (Ok False, s)
           | Some t \<Rightarrow>
               if task_done t then (Ok False, s)
               else andthen (gpt env (lit ''remind'') (lit ''I haven't finished: '' @ task_text t))
                      (\<lambda>nud. andthen
                         (send_message env chat (MsgText nud) (Some (build_keyboard (task_id t))))
                         (\<lambda>_ s'. (Ok True, s'))) s))"

definition set_status :: "nat \<Rightarrow> status \<Rightarrow> state \<Rightarrow> state" where
  "set_status h st s = s\<lparr>timers := (timers s)[h := (timers s ! h)\<lparr>t_status := st\<rparr>]\<rparr>"

text \<open>
  The sleep of reminder task \<open>h\<close> elapses. Only a pending task wakes up; a task that has
  returned, raised or been cancelled never runs again. An exception that leaves the loop ends
  the asyncio task and reaches nobody else.
\<close>

definition remind_fire :: "env \<Rightarrow> nat \<Rightarrow> state \<Rightarrow> state" where
  "remind_fire env h s =
     (if h < length (timers s) \<and> t_status (timers s ! h) = Pending
      then (case remind_body env (t_chat (timers s ! h)) (t_task (timers s ! h)) s of
              (Ok True, s') \<Rightarrow> s'
            | (Ok False, s') \<Rightarrow> emit (Exited h) (set_status h Finished s')
            | (Raise e, s') \<Rightarrow> emit (Exited h) (set_status h (Failed e) s'))
      else s)"

section \<open>Task operations\<close>

definition is_morning_input :: "pystr \<Rightarrow> bool" where
  "is_morning_input txt = (0x0A \<in> set txt)"

definition morning_lines :: "pystr \<Rightarrow> pystr list" where
  "morning_lines raw = map strip (filter (\<lambda>l. strip l \<noteq> []) (splitlines raw))"

text \<open>
  \<open>for l in ls: u["tasks"].append(Task(l, priority))\<close>, each new task taking the next
  identifier of \<open>uuid4\<close>.
\<close>

fun append_tasks :: "env \<Rightarrow> tier \<Rightarrow> pystr list \<Rightarrow> task list \<times> nat \<Rightarrow> task list \<times> nat" where
  "append_tasks env pr [] (ts, n) = (ts, n)"
| "append_tasks env pr (l # ls) (ts, n) =
     append_tasks env pr ls
       (ts @ [\<lparr>task_id = uuid4 env n, task_text = l, task_prio = pr, task_done = False\<rparr>], Suc n)"

definition build_queue :: "env \<Rightarrow> nat \<Rightarrow> pystr \<Rightarrow> task list \<times> nat" where
  "build_queue env n raw =
     (let ls = morning_lines raw;
          top = take 1 ls;
          mids = take 3 (drop 1 ls);
          extras = drop 4 ls
      in append_tasks env Extra extras
           (append_tasks env Mid mids (append_tasks env Top top ([], n))))"

definition add_tasks_from_morning :: "env \<Rightarrow> int \<Rightarrow> pystr \<Rightarrow> state \<Rightarrow> unit res \<times> state" where
  "add_tasks_from_morning env chat raw s =
     (case users s chat of
        None \<Rightarrow> (Raise KeyError, s)
      | Some u \<Rightarrow>
          (let s1 = (case reminder u of None \<Rightarrow> s | Some h \<Rightarrow> cancel chat h s);
               (ts, n) = build_queue env (n_uuid s1) raw
           in (Ok (), s1\<lparr>users := (users s1)(chat \<mapsto> u\<lparr>tasks := ts, pointer := 0\<rparr>),
                         n_uuid := n\<rparr>)))"

text \<open>
  \<open>next(t for t in users[chat_id]["tasks"] if t.id == tid)\<close>: a missing session is a
  \<open>KeyError\<close>, an exhausted generator a \<open>StopIteration\<close> (which the enclosing coroutine
  turns into a \<open>RuntimeError\<close>).
\<close>

definition get_task :: "int \<Rightarrow> pystr \<Rightarrow> state \<Rightarrow> task res \<times> state" where
  "get_task chat tid s =
     (case users s chat of
        None \<Rightarrow> (Raise KeyError, s)
      | Some u \<Rightarrow>
          (case find (\<lambda>t. task_id t = tid) (tasks u) of
             None \<Rightarrow> (Raise StopIteration, s)
           | Some t \<Rightarrow> (Ok t, s)))"

text \<open>\<open>t.done = True\<close> on the task that \<open>get_task\<close> returned: the first with that id.\<close>

fun mark_first :: "pystr \<Rightarrow> task list \<Rightarrow> task list" where
  "mark_first tid [] = []"
| "mark_first tid (t # ts) =
     (if task_id t = tid then t\<lparr>task_done := True\<rparr> # ts else t # mark_first tid ts)"

definition mark_done :: "int \<Rightarrow> pystr \<Rightarrow> state \<Rightarrow> unit res \<times> state" where
  "mark_done chat tid s =
     (case get_task chat tid s of
        (Raise e, s1) \<Rightarrow> (Raise e, s1)
      | (Ok t, s1) \<Rightarrow>
          (case users s1 chat of
             None \<Rightarrow> (Raise KeyError, s1)
           | Some u \<Rightarrow>
               (let s2 = s1\<lparr>users := (users s1)(chat \<mapsto> u\<lparr>tasks := mark_first tid (tasks u)\<rparr>)\<rparr>
                in (Ok (), (case reminder u of
                              None \<Rightarrow> s2
                            | Some h \<Rightarrow> if \<not> cancelled h s2 then cancel chat h s2 else s2)))))"

section \<open>The webhook\<close>

record tg_callback =
  cq_id :: pystr
  cq_data :: "pystr option"
  cq_from :: int

record tg_message =
  msg_chat :: int
  msg_text :: "pystr option"

record tg_update =
  callback_query :: "tg_callback option"
  message :: "tg_message option"

type_synonym response = "(string \<times> bool) list"

definition ok_true :: response where
  "ok_true = [(''ok'', True)]"

definition new_session :: session where
  "new_session = \<lparr>tasks = [], pointer = 0, reminder = None\<rparr>"

definition setdefault :: "int \<Rightarrow> state \<Rightarrow> state" where
  "setdefault chat s =
     (case users s chat of
        None \<Rightarrow> s\<lparr>users := (users s)(chat \<mapsto> new_session)\<rparr>
      | Some _ \<Rightarrow> s)"

definition handle_callback :: "env \<Rightarrow> tg_callback \<Rightarrow> state \<Rightarrow> response res \<times> state" where
  "handle_callback env cq s =
     (case split_colon (case cq_data cq of None \<Rightarrow> [] | Some d \<Rightarrow> d) of
        None \<Rightarrow> (Raise ValueError, s)
      | Some (action, tid) \<Rightarrow>
          andthen (answer_callback_query env (cq_id cq))
            (\<lambda>_. if action = lit ''done'' then
                    andthen (mark_done (cq_from cq) tid)
                      (\<lambda>_. andthen (send_message env (cq_from cq) MsgMarkedDone None)
                        (\<lambda>_. andthen (start_focus env (cq_from cq))
                          (\<lambda>_ s'. (Ok ok_true, s'))))
                  else if action = lit ''stuck'' then
                    andthen (get_task (cq_from cq) tid)
                      (\<lambda>t. andthen (gpt env (lit ''stuck'') (lit ''I'm stuck on: '' @ task_text t))
                        (\<lambda>tip. andthen
                           (send_message env (cq_from cq) (MsgText tip)
                              (Some (build_keyboard (task_id t))))
                           (\<lambda>_ s'. (Ok ok_true, s'))))
                  else (\<lambda>s'. (Ok ok_true, s'))) s)"

definition handle_message :: "env \<Rightarrow> int \<Rightarrow> pystr \<Rightarrow> state \<Rightarrow> response res \<times> state" where
  "handle_message env chat raw s =
     (let txt = strip raw; s0 = setdefault chat s
      in if lower txt = lit ''/start'' then
           andthen (send_message env chat MsgWelcome None) (\<lambda>_ s'. (Ok ok_true, s')) s0
         else if is_morning_input txt then
           andthen (add_tasks_from_morning env chat txt)
             (\<lambda>_. andthen (gpt env (lit ''ack'') (lit ''I've planned my goals for today''))
               (\<lambda>ack. andthen (send_message env chat (MsgText ack) None)
                 (\<lambda>_. andthen (start_focus env chat) (\<lambda>_ s'. (Ok ok_true, s'))))) s0
         else
           andthen (send_message env chat MsgFallback None) (\<lambda>_ s'. (Ok ok_true, s')) s0)"

text \<open>
  The request body is \<open>None\<close> when it is no JSON or \<open>types.Update\<close> rejects it; the
  handler raises then, as it does whenever a call inside it raises.
\<close>

definition telegram_webhook :: "env \<Rightarrow> tg_update option \<Rightarrow> state \<Rightarrow> response res \<times> state" where
  "telegram_webhook env req s =
     (case req of
        None \<Rightarrow> (Raise ValidationError, s)
      | Some upd \<Rightarrow>
          (case callback_query upd of
             Some cq \<Rightarrow> handle_callback env cq s
           | None \<Rightarrow>
               (case message upd of
                  None \<Rightarrow> (Ok ok_true, s)
                | Some m \<Rightarrow>
                    (case msg_text m of
                       None \<Rightarrow> (Ok ok_true, s)
                     | Some raw \<Rightarrow>
                         if raw = [] then (Ok ok_true, s)
                         else handle_message env (msg_chat m) raw s))))"

section \<open>Runs of the controller\<close>

text \<open>
  The controller handles one event after the other: a request to the webhook, or the
  elapsed sleep of a reminder task. Each event is handled to its end before the next.
\<close>

datatype event = Webhook "tg_update option" | Fire nat

definition step :: "env \<Rightarrow> state \<Rightarrow> event \<Rightarrow> state" where
  "step env s ev =
     (case ev of
        Webhook req \<Rightarrow> snd (telegram_webhook env req s)
      | Fire h \<Rightarrow> remind_fire env h s)"

definition run :: "env \<Rightarrow> event list \<Rightarrow> state \<Rightarrow> state" where
  "run env evs s = foldl (step env) s evs"

section \<open>The reminder loop of version 0.2\<close>

text \<open>
  \<open>main_v2.py\<close> keeps one dict of tasks by id; its \<open>reminder_loop\<close> wraps the two
  requests of a firing in \<open>try ... except Exception\<close>.
\<close>

record v2_task =
  v2_chat :: int
  v2_text :: pystr
  v2_done :: bool

record v2_state =
  v2_tasks :: "pystr \<Rightarrow> v2_task option"
  v2_n_io :: nat
  v2_trace :: "effect list"

definition coach_reply :: "env \<Rightarrow> pystr \<Rightarrow> pystr \<Rightarrow> v2_state \<Rightarrow> pystr res \<times> v2_state" where
  "coach_reply env reason txt s =
     (case map_of [(lit ''ack'', lit ''I just committed to: '' @ txt),
                   (lit ''remind'', lit ''I haven't finished yet: '' @ txt),
                   (lit ''stuck'', lit ''I'm stuck on: '' @ txt)] reason of
        None \<Rightarrow> (Raise KeyError, s)
      | Some user_msg \<Rightarrow>
          (case io env (v2_n_io s) of
             None \<Rightarrow> (Raise GenerationError, s\<lparr>v2_n_io := Suc (v2_n_io s)\<rparr>)
           | Some r \<Rightarrow> (Ok (strip r), s\<lparr>v2_n_io := Suc (v2_n_io s),
                                       v2_trace := v2_trace s @ [Generated reason user_msg]\<rparr>)))"

text \<open>
  One pass through the body of the loop after the sleep: \<open>False\<close> when it breaks out of
  the loop, \<open>True\<close> when the loop sleeps again, also after an exception that the
  \<open>except\<close> clause caught and printed.
\<close>

definition reminder_body :: "env \<Rightarrow> pystr \<Rightarrow> v2_state \<Rightarrow> bool \<times> v2_state" where
  "reminder_body env tid s =
     (case v2_tasks s tid of
        None \<Rightarrow> (False, s)
      | Some t \<Rightarrow>
          if v2_done t then (False, s)
          else (case coach_reply env (lit ''remind'') (v2_text t) s of
                  (Raise e, s1) \<Rightarrow> (True, s1)
                | (Ok msg, s1) \<Rightarrow>
                    (case io env (v2_n_io s1) of
                       None \<Rightarrow> (True, s1\<lparr>v2_n_io := Suc (v2_n_io s1)\<rparr>)
                     | Some _ \<Rightarrow>
                         (True, s1\<lparr>v2_n_io := Suc (v2_n_io s1),
                                   v2_trace := v2_trace s1 @ [Sent (v2_chat t) (MsgText msg) None]\<rparr>))))"

text \<open>The loop over \<open>n\<close> intervals; \<open>True\<close> when it is still running after them.\<close>

fun reminder_loop :: "env \<Rightarrow> pystr \<Rightarrow> nat \<Rightarrow> v2_state \<Rightarrow> bool \<times> v2_state" where
  "reminder_loop env tid 0 s = (True, s)"
| "reminder_loop env tid (Suc n) s =
     (case reminder_body env tid s of
        (False, s') \<Rightarrow> (False, s')
      | (True, s') \<Rightarrow> reminder_loop env tid n s')"

section \<open>Notions used in the properties\<close>

text \<open>
  The task a reminder is about, when it is still in the session and not done: the re-check
  that \<open>remind_loop\<close> makes after each sleep.
\<close>

definition open_task :: "state \<Rightarrow> int \<Rightarrow> pystr \<Rightarrow> task option" where
  "open_task s c tid =
     (case users s c of
        None \<Rightarrow> None
      | Some u \<Rightarrow>
          (case find (\<lambda>t. task_id t = tid) (tasks u) of
             None \<Rightarrow> None
           | Some t \<Rightarrow> if task_done t then None else Some t))"

text \<open>
  A world in which every request succeeds, and one in which the request number \<open>k\<close> raises.
\<close>

definition calm_env :: env where
  "calm_env = \<lparr>uuid4 = (\<lambda>n. replicate (Suc n) 0x75), io = (\<lambda>n. Some (lit ''Go!''))\<rparr>"

definition flaky_env :: "nat \<Rightarrow> env" where
  "flaky_env k =
     \<lparr>uuid4 = (\<lambda>n. replicate (Suc n) 0x75), io = (\<lambda>n. if n = k then None else Some (lit ''Go!''))\<rparr>"

text \<open>
  A session of chat 7 with two tasks and a reminder task for the first; the first task's
  done flag and the reminder's status are left open.
\<close>

definition sample_state :: "bool \<Rightarrow> status \<Rightarrow> state" where
  "sample_state d st =
     \<lparr>users = [7 \<mapsto>
        \<lparr>tasks = [\<lparr>task_id = [0x75], task_text = lit ''Write report'', task_prio = Top,
                    task_done = d\<rparr>,
                  \<lparr>task_id = [0x75, 0x75], task_text = lit ''Call Bob'', task_prio = Mid,
                    task_done = False\<rparr>],
         pointer = 0, reminder = Some 0\<rparr>],
      timers = [\<lparr>t_chat = 7, t_task = [0x75], t_status = st\<rparr>],
      n_uuid = 2, n_io = 0, trace = []\<rparr>"

text \<open>A request to the webhook: a text message of a chat, or a pressed button.\<close>

definition text_update :: "int \<Rightarrow> pystr \<Rightarrow> tg_update" where
  "text_update c txt =
     \<lparr>callback_query = None, message = Some \<lparr>msg_chat = c, msg_text = Some txt\<rparr>\<rparr>"

definition button_update :: "int \<Rightarrow> pystr \<Rightarrow> tg_update" where
  "button_update c d =
     \<lparr>callback_query = Some \<lparr>cq_id = lit ''q'', cq_data = Some d, cq_from = c\<rparr>, message = None\<rparr>"

text \<open>
  The tasks that \<open>for l in ls: u["tasks"].append(Task(l, priority))\<close> appends when the
  next identifier is the n-th.
\<close>

fun fresh_tasks :: "env \<Rightarrow> tier \<Rightarrow> nat \<Rightarrow> pystr list \<Rightarrow> task list" where
  "fresh_tasks env pr n [] = []"
| "fresh_tasks env pr n (l # ls) =
     \<lparr>task_id = uuid4 env n, task_text = l, task_prio = pr, task_done = False\<rparr>
       # fresh_tasks env pr (Suc n) ls"

text \<open>The goal list of the scenario in the specification.\<close>

definition goals_text :: pystr where
  "goals_text = lit ''Write report'' @ [0x0A] @ lit ''Call Bob'' @ [0x0A] @ lit ''Email team''
     @ [0x0A] @ lit ''Backup files'' @ [0x0A] @ lit ''Clean desk''"

text \<open>
  What a handler guarantees: started in a state with \<open>P\<close>, it ends with \<open>Q\<close> when it
  returns and with \<open>E\<close> when it raises.
\<close>

definition triple ::
  "(state \<Rightarrow> bool) \<Rightarrow> (state \<Rightarrow> 'a res \<times> state) \<Rightarrow> ('a \<Rightarrow> state \<Rightarrow> bool) \<Rightarrow> (state \<Rightarrow> bool) \<Rightarrow> bool" where
  "triple P m Q E = (\<forall>s. P s \<longrightarrow> (case m s of (Ok x, s') \<Rightarrow> Q x s' | (Raise e, s') \<Rightarrow> E s'))"

text \<open>
  A session at a later time, when no new goal list came in between: the queue has the same
  length, the pointer has not moved back, and a task that was done is still done.
\<close>

definition session_le :: "session \<Rightarrow> session \<Rightarrow> bool" where
  "session_le u u' =
     (length (tasks u') = length (tasks u) \<and> pointer u \<le> pointer u'
      \<and> (\<forall>i<length (tasks u). task_done (tasks u ! i) \<longrightarrow> task_done (tasks u' ! i)))"

definition grows :: "int \<Rightarrow> state \<Rightarrow> state \<Rightarrow> bool" where
  "grows c s s' =
     (case users s c of
        None \<Rightarrow> True
      | Some u \<Rightarrow> (case users s' c of None \<Rightarrow> False | Some u' \<Rightarrow> session_le u u'))"

text \<open>A request to the webhook that is a pressed Done button.\<close>

definition is_done_signal :: "event \<Rightarrow> bool" where
  "is_done_signal ev =
     (case ev of
        Fire h \<Rightarrow> False
      | Webhook req \<Rightarrow>
          (case req of
             None \<Rightarrow> False
           | Some upd \<Rightarrow>
               (case callback_query upd of
                  None \<Rightarrow> False
                | Some cq \<Rightarrow>
                    (case split_colon (case cq_data cq of None \<Rightarrow> [] | Some d \<Rightarrow> d) of
                       None \<Rightarrow> False
                     | Some (action, tid) \<Rightarrow> action = lit ''done''))))"

text \<open>
  The reminder tasks of a chat that a trace leaves outstanding: armed, and since then
  neither cancelled nor ended by themselves; and the numbers of arm and cancel operations
  of a chat in a trace.
\<close>

definition track :: "int \<Rightarrow> nat set \<Rightarrow> effect \<Rightarrow> nat set" where
  "track c L e =
     (case e of
        Armed c' h t \<Rightarrow> if c' = c then insert h L else L
      | CancelCall c' h \<Rightarrow> L - {h}
      | Exited h \<Rightarrow> L - {h}
      | Generated r ct \<Rightarrow> L
      | Sent c' b kb \<Rightarrow> L
      | Answered q \<Rightarrow> L)"

definition live :: "int \<Rightarrow> effect list \<Rightarrow> nat set" where
  "live c tr = foldl (track c) {} tr"

definition is_arm :: "int \<Rightarrow> effect \<Rightarrow> bool" where
  "is_arm c e = (case e of Armed c' h t \<Rightarrow> c' = c | _ \<Rightarrow> False)"

definition is_cancel :: "int \<Rightarrow> effect \<Rightarrow> bool" where
  "is_cancel c e = (case e of CancelCall c' h \<Rightarrow> c' = c | _ \<Rightarrow> False)"

definition arms :: "int \<Rightarrow> effect list \<Rightarrow> nat" where
  "arms c tr = length (filter (is_arm c) tr)"

definition cancels :: "int \<Rightarrow> effect list \<Rightarrow> nat" where
  "cancels c tr = length (filter (is_cancel c) tr)"

text \<open>The reminder tasks of a chat that are pending in a state.\<close>

definition pending :: "state \<Rightarrow> int \<Rightarrow> nat set" where
  "pending s c =
     {h. h < length (timers s) \<and> t_chat (timers s ! h) = c \<and> t_status (timers s ! h) = Pending}"

text \<open>
  At every instant of a trace: at most one reminder task of the chat is outstanding, the
  arm operations exceed the cancel operations by at most one, and a reminder task is armed
  only when none is outstanding.
\<close>

definition hist_ok :: "int \<Rightarrow> effect list \<Rightarrow> bool" where
  "hist_ok c tr =
     (\<forall>n. card (live c (take n tr)) \<le> 1
          \<and> arms c (take n tr) \<le> cancels c (take n tr) + 1
          \<and> (\<forall>h t. n < length tr \<and> tr ! n = Armed c h t \<longrightarrow> live c (take n tr) = {}))"

text \<open>
  What every reachable state satisfies: the trace accounts for the pending reminder tasks;
  a pending reminder task is the one its session names; a session's handle is a reminder
  task of that chat; and arm operations exceed cancel operations only while the session
  names a reminder task that is not cancelled.
\<close>

definition inv_live :: "state \<Rightarrow> bool" where
  "inv_live s = (\<forall>c. live c (trace s) = pending s c)"

definition inv_hist :: "state \<Rightarrow> bool" where
  "inv_hist s = (\<forall>c. hist_ok c (trace s))"

definition inv_owner :: "state \<Rightarrow> bool" where
  "inv_owner s = (\<forall>c h. h \<in> pending s c \<longrightarrow> (\<exists>u. users s c = Some u \<and> reminder u = Some h))"

definition inv_handle :: "state \<Rightarrow> bool" where
  "inv_handle s =
     (\<forall>c u h. users s c = Some u \<longrightarrow> reminder u = Some h \<longrightarrow>
        h < length (timers s) \<and> t_chat (timers s ! h) = c)"

definition inv_count :: "state \<Rightarrow> bool" where
  "inv_count s =
     (\<forall>c. arms c (trace s) \<le> cancels c (trace s)
        \<or> (\<exists>u h. users s c = Some u \<and> reminder u = Some h
               \<and> t_status (timers s ! h) \<noteq> Cancelled))"

definition inv :: "state \<Rightarrow> bool" where
  "inv s = (inv_live s \<and> inv_hist s \<and> inv_owner s \<and> inv_handle s \<and> inv_count s)"

definition quiet :: "int \<Rightarrow> state \<Rightarrow> bool" where
  "quiet c s = (pending s c = {} \<and> arms c (trace s) \<le> cancels c (trace s))"

definition timer_free :: "effect \<Rightarrow> bool" where
  "timer_free e =
     (case e of Generated r ct \<Rightarrow> True | Sent c b kb \<Rightarrow> True | Answered q \<Rightarrow> True
      | Armed c h t \<Rightarrow> False | CancelCall c h \<Rightarrow> False | Exited h \<Rightarrow> False)"

section \<open>Basic facts\<close>

lemma find_task_id: "find (\<lambda>t. task_id t = tid) ts = Some t \<Longrightarrow> task_id t = tid"
  by (induction ts) (auto split: if_splits)

lemma funpow_fixed: "f x = x \<Longrightarrow> (f ^^ n) x = x"
  by (induction n) simp_all

lemma cancel_fields [simp]:
  "users (cancel c h s) = users s"
  "n_io (cancel c h s) = n_io s"
  "n_uuid (cancel c h s) = n_uuid s"
  "trace (cancel c h s) = trace s @ [CancelCall c h]"
  "length (timers (cancel c h s)) = length (timers s)"
  by (simp_all add: cancel_def emit_def)

lemma remind_fire_not_pending:
  "\<not> (h < length (timers s) \<and> t_status (timers s ! h) = Pending) \<Longrightarrow> remind_fire env h s = s"
  by (auto simp: remind_fire_def)

lemma remind_fire_closed:
  assumes "h < length (timers s)" and "t_status (timers s ! h) = Pending"
    and "open_task s (t_chat (timers s ! h)) (t_task (timers s ! h)) = None"
  shows "remind_fire env h s =
           s\<lparr>timers := (timers s)[h := (timers s ! h)\<lparr>t_status := Finished\<rparr>],
             trace := trace s @ [Exited h]\<rparr>"
  using assms
  by (auto simp: remind_fire_def remind_body_def open_task_def set_status_def emit_def
      split: option.splits if_splits)

lemma remind_fire_open:
  assumes "h < length (timers s)" and "t_status (timers s ! h) = Pending"
    and "open_task s (t_chat (timers s ! h)) (t_task (timers s ! h)) = Some t"
    and "io env (n_io s) = Some r" and "io env (Suc (n_io s)) = Some r'"
  shows "remind_fire env h s =
           s\<lparr>n_io := Suc (Suc (n_io s)),
             trace := trace s @
               [Generated (lit ''remind'') (lit ''I haven't finished: '' @ task_text t),
                Sent (t_chat (timers s ! h)) (MsgText (strip r))
                  (Some (build_keyboard (t_task (timers s ! h))))]\<rparr>"
proof -
  from assms(3) obtain u where u: "users s (t_chat (timers s ! h)) = Some u"
    and f: "find (\<lambda>t. task_id t = t_task (timers s ! h)) (tasks u) = Some t"
    and d: "\<not> task_done t"
    by (auto simp: open_task_def split: option.splits if_splits)
  from f have "task_id t = t_task (timers s ! h)"
    by (rule find_task_id)
  with assms(1,2,4,5) u f d show ?thesis
    by (simp add: remind_fire_def remind_body_def emit_def andthen_def gpt_def send_message_def)
qed

lemma sample_fields [simp]:
  "timers (sample_state d st) = [\<lparr>t_chat = 7, t_task = [0x75], t_status = st\<rparr>]"
  "n_io (sample_state d st) = 0"
  "trace (sample_state d st) = []"
  by (simp_all add: sample_state_def)

lemma sample_open_task:
  "open_task (sample_state d st) 7 [0x75] =
     (if d then None
      else Some \<lparr>task_id = [0x75], task_text = lit ''Write report'', task_prio = Top,
                  task_done = False\<rparr>)"
  by (simp add: open_task_def sample_state_def)

lemma strip_go: "strip (lit ''Go!'') = lit ''Go!''"
  by (simp add: strip_def lit_def is_space_def)

section \<open>The reminder loop re-checks its task\<close>

text \<open>
  What one firing does. If the session or the task is gone, or the task is done, the loop
  returns: the reminder task is finished without an exception, no text is requested, nothing
  is sent, and no later expiry of a sleep makes it run again. If the task is there and not
  done and the two requests succeed, the loop requests a reminder text for the task, sends
  it with the two buttons of the task, and stays pending for the next interval.
\<close>

lemma remind_fire_recheck:
  assumes "h < length (timers s)" and "t_status (timers s ! h) = Pending"
    and "t_chat (timers s ! h) = c" and "t_task (timers s ! h) = tid"
  shows "(open_task s c tid = None \<longrightarrow>
            remind_fire env h s =
              s\<lparr>timers := (timers s)[h := (timers s ! h)\<lparr>t_status := Finished\<rparr>],
                trace := trace s @ [Exited h]\<rparr>
          \<and> (remind_fire env' h ^^ n) (remind_fire env h s) = remind_fire env h s)
       \<and> (open_task s c tid = Some t \<and> io env (n_io s) = Some r \<and> io env (Suc (n_io s)) = Some r'
            \<longrightarrow> remind_fire env h s =
                  s\<lparr>n_io := Suc (Suc (n_io s)),
                    trace := trace s @
                      [Generated (lit ''remind'') (lit ''I haven't finished: '' @ task_text t),
                       Sent c (MsgText (strip r)) (Some (build_keyboard tid))]\<rparr>
              \<and> t_status (timers (remind_fire env h s) ! h) = Pending)"
proof (intro conjI impI)
  assume "open_task s c tid = None"
  with assms show eq: "remind_fire env h s =
      s\<lparr>timers := (timers s)[h := (timers s ! h)\<lparr>t_status := Finished\<rparr>],
        trace := trace s @ [Exited h]\<rparr>"
    using remind_fire_closed[of h s env] by simp
  have "remind_fire env' h (remind_fire env h s) = remind_fire env h s"
    using assms(1) by (subst (1 2) eq, intro remind_fire_not_pending) simp
  then show "(remind_fire env' h ^^ n) (remind_fire env h s) = remind_fire env h s"
    by (rule funpow_fixed)
next
  assume "open_task s c tid = Some t \<and> io env (n_io s) = Some r \<and> io env (Suc (n_io s)) = Some r'"
  with assms show eq: "remind_fire env h s =
      s\<lparr>n_io := Suc (Suc (n_io s)),
        trace := trace s @
          [Generated (lit ''remind'') (lit ''I haven't finished: '' @ task_text t),
           Sent c (MsgText (strip r)) (Some (build_keyboard tid))]\<rparr>"
    using remind_fire_open[of h s t env r r'] by simp
  show "t_status (timers (remind_fire env h s) ! h) = Pending"
    using assms(2) by (subst eq) simp
qed

lemma remind_fire_recheck_sample:
  "remind_fire calm_env 0 (sample_state True Pending) =
     (sample_state True Pending)\<lparr>timers := [\<lparr>t_chat = 7, t_task = [0x75], t_status = Finished\<rparr>],
        trace := [Exited 0]\<rparr>
   \<and> (remind_fire calm_env 0 ^^ 3) (remind_fire calm_env 0 (sample_state True Pending))
       = remind_fire calm_env 0 (sample_state True Pending)
   \<and> remind_fire calm_env 0 (sample_state False Pending) =
     (sample_state False Pending)\<lparr>n_io := 2,
        trace := [Generated (lit ''remind'') (lit ''I haven't finished: Write report''),
                  Sent 7 (MsgText (lit ''Go!'')) (Some (build_keyboard [0x75]))]\<rparr>
   \<and> t_status (timers (remind_fire calm_env 0 (sample_state False Pending)) ! 0) = Pending"
proof -
  have io: "io calm_env (n_io (sample_state False Pending)) = Some (lit ''Go!'')"
    "io calm_env (Suc (n_io (sample_state False Pending))) = Some (lit ''Go!'')"
    by (simp_all add: calm_env_def)
  have a: "open_task (sample_state True Pending) 7 [0x75] = None"
    by (simp add: sample_open_task)
  have b: "open_task (sample_state False Pending) 7 [0x75] =
      Some \<lparr>task_id = [0x75], task_text = lit ''Write report'', task_prio = Top, task_done = False\<rparr>"
    by (simp add: sample_open_task)
  have h: "0 < length (timers (sample_state d Pending))"
    "t_status (timers (sample_state d Pending) ! 0) = Pending"
    "t_chat (timers (sample_state d Pending) ! 0) = 7"
    "t_task (timers (sample_state d Pending) ! 0) = [0x75]" for d
    by simp_all
  note gone = remind_fire_recheck[where s="sample_state True Pending" and env=calm_env
      and env'=calm_env and n=3, OF h, THEN conjunct1, THEN mp, OF a]
  note there = remind_fire_recheck[where s="sample_state False Pending" and env=calm_env,
      OF h, THEN conjunct2, THEN mp, OF conjI[OF b conjI[OF io]]]
  show ?thesis
  proof (intro conjI)
    show "remind_fire calm_env 0 (sample_state True Pending) =
     (sample_state True Pending)\<lparr>timers := [\<lparr>t_chat = 7, t_task = [0x75], t_status = Finished\<rparr>],
        trace := [Exited 0]\<rparr>"
      using gone by simp
    show "(remind_fire calm_env 0 ^^ 3) (remind_fire calm_env 0 (sample_state True Pending))
       = remind_fire calm_env 0 (sample_state True Pending)"
      using gone by (rule conjunct2)
    show "remind_fire calm_env 0 (sample_state False Pending) =
     (sample_state False Pending)\<lparr>n_io := 2,
        trace := [Generated (lit ''remind'') (lit ''I haven't finished: Write report''),
                  Sent 7 (MsgText (lit ''Go!'')) (Some (build_keyboard [0x75]))]\<rparr>"
      using there by (simp add: strip_go) (simp add: lit_def)
    show "t_status (timers (remind_fire calm_env 0 (sample_state False Pending)) ! 0) = Pending"
      using there by (rule conjunct2)
  qed
qed

text \<open>
  C5. The claim has two halves. The first holds (\<open>remind_fire_recheck\<close>): a firing whose
  task is gone or done ends the loop without a nudge and without an error. The second, that
  a firing whose task is still open sends a nudge and waits another interval, fails when the
  text request raises: for chat 7 the task \<open>u\<close> is in the session and not done, yet
  nothing is sent and the reminder task is no longer pending afterwards.
\<close>

theorem remind_fire_open_task_no_nudge:
  "open_task (sample_state False Pending) 7 [0x75] =
     Some \<lparr>task_id = [0x75], task_text = lit ''Write report'', task_prio = Top,
            task_done = False\<rparr>
   \<and> remind_fire (flaky_env 0) 0 (sample_state False Pending) =
     (sample_state False Pending)\<lparr>n_io := 1,
        timers := [\<lparr>t_chat = 7, t_task = [0x75], t_status = Failed GenerationError\<rparr>],
        trace := [Exited 0]\<rparr>
   \<and> t_status (timers (remind_fire (flaky_env 0) 0 (sample_state False Pending)) ! 0) \<noteq> Pending"
proof -
  have r: "remind_fire (flaky_env 0) 0 (sample_state False Pending) =
     (sample_state False Pending)\<lparr>n_io := 1,
        timers := [\<lparr>t_chat = 7, t_task = [0x75], t_status = Failed GenerationError\<rparr>],
        trace := [Exited 0]\<rparr>"
    by (simp add: remind_fire_def remind_body_def sample_state_def flaky_env_def andthen_def
        gpt_def emit_def set_status_def)
  show ?thesis
    by (simp add: r sample_open_task)
qed

section \<open>Cancelling a reminder that is no longer pending\<close>

text \<open>
  C10. Calling \<open>cancel\<close> on the session's reminder handle when that reminder task is
  already cancelled or has already ended by itself changes no reminder task, so it stops
  no firing that was still to come, and calling it again changes nothing either. The two
  places that cancel, \<open>mark_done\<close> (for a task of the session) and
  \<open>add_tasks_from_morning\<close>, return without an exception then and leave every reminder
  task as it was.
\<close>

theorem cancel_idempotent:
  assumes "users s c = Some u" and "reminder u = Some h"
    and "h < length (timers s)" and "t_status (timers s ! h) \<noteq> Pending"
  shows "timers (cancel c h s) = timers s
    \<and> timers (cancel c h (cancel c h s)) = timers (cancel c h s)
    \<and> (find (\<lambda>t. task_id t = tid) (tasks u) \<noteq> None \<longrightarrow>
         fst (mark_done c tid s) = Ok () \<and> timers (snd (mark_done c tid s)) = timers s)
    \<and> fst (add_tasks_from_morning env c raw s) = Ok ()
    \<and> timers (snd (add_tasks_from_morning env c raw s)) = timers s"
  using assms
  by (auto simp: cancel_def emit_def mark_done_def get_task_def cancelled_def
      add_tasks_from_morning_def Let_def split: option.splits prod.splits)

theorem cancel_idempotent_witness:
  "timers (cancel 7 0 (sample_state False Cancelled)) = timers (sample_state False Cancelled)
   \<and> timers (cancel 7 0 (cancel 7 0 (sample_state False Finished)))
       = timers (cancel 7 0 (sample_state False Finished))
   \<and> fst (mark_done 7 [0x75] (sample_state False Finished)) = Ok ()
   \<and> timers (snd (mark_done 7 [0x75] (sample_state False Finished)))
       = timers (sample_state False Finished)
   \<and> fst (add_tasks_from_morning calm_env 7 [0x41, 0x0A, 0x42] (sample_state False Cancelled)) = Ok ()
   \<and> timers (snd (add_tasks_from_morning calm_env 7 [0x41, 0x0A, 0x42] (sample_state False Cancelled)))
       = timers (sample_state False Cancelled)"
proof -
  have u: "users (sample_state False st) 7 =
      Some \<lparr>tasks = [\<lparr>task_id = [0x75], task_text = lit ''Write report'', task_prio = Top,
                       task_done = False\<rparr>,
                     \<lparr>task_id = [0x75, 0x75], task_text = lit ''Call Bob'', task_prio = Mid,
                       task_done = False\<rparr>],
             pointer = 0, reminder = Some 0\<rparr>" for st
    by (simp add: sample_state_def)
  have r: "reminder \<lparr>tasks = [\<lparr>task_id = [0x75], task_text = lit ''Write report'',
                       task_prio = Top, task_done = False\<rparr>,
                     \<lparr>task_id = [0x75, 0x75], task_text = lit ''Call Bob'', task_prio = Mid,
                       task_done = False\<rparr>],
             pointer = 0, reminder = Some 0\<rparr> = Some 0"
    by simp
  have l: "0 < length (timers (sample_state False st))" for st
    by simp
  have c: "t_status (timers (sample_state False Cancelled) ! 0) \<noteq> Pending"
    and f: "t_status (timers (sample_state False Finished) ! 0) \<noteq> Pending"
    by simp_all
  note on_cancelled = cancel_idempotent[where env=calm_env and raw="[0x41, 0x0A, 0x42]"
      and tid="[0x75]", OF u r l c]
  note on_finished = cancel_idempotent[where env=calm_env and raw="[0x41, 0x0A, 0x42]"
      and tid="[0x75]", OF u r l f]
  show ?thesis
    using on_cancelled on_finished by simp
qed

section \<open>A failed request during a reminder firing\<close>

lemma split_done [simp]: "split_colon (lit ''done:'' @ tid) = Some (lit ''done'', tid)"
  by (simp add: lit_def split_colon_def)

lemma split_stuck [simp]: "split_colon (lit ''stuck:'' @ tid) = Some (lit ''stuck'', tid)"
  by (simp add: lit_def split_colon_def)

lemma done_not_stuck [simp]: "lit ''stuck'' \<noteq> lit ''done''" "lit ''done'' \<noteq> lit ''stuck''"
  by (simp_all add: lit_def)

lemma remind_fire_raise:
  assumes "h < length (timers s)" and "t_status (timers s ! h) = Pending"
    and "open_task s (t_chat (timers s ! h)) (t_task (timers s ! h)) = Some t"
    and "io env (n_io s) = None"
  shows "remind_fire env h s =
           s\<lparr>n_io := Suc (n_io s),
             timers := (timers s)[h := (timers s ! h)\<lparr>t_status := Failed GenerationError\<rparr>],
             trace := trace s @ [Exited h]\<rparr>"
proof -
  from assms(3) obtain u where u: "users s (t_chat (timers s ! h)) = Some u"
    and f: "find (\<lambda>t. task_id t = t_task (timers s ! h)) (tasks u) = Some t"
    and d: "\<not> task_done t"
    by (auto simp: open_task_def split: option.splits if_splits)
  with assms(1,2,4) show ?thesis
    by (simp add: remind_fire_def remind_body_def emit_def andthen_def gpt_def set_status_def)
qed

lemma reminder_body_survives:
  assumes "v2_tasks s tid = Some t" and "\<not> v2_done t"
  shows "fst (reminder_body env tid s) \<and> v2_tasks (snd (reminder_body env tid s)) = v2_tasks s"
  using assms
  by (auto simp: reminder_body_def coach_reply_def split: option.splits prod.splits res.splits)

lemma reminder_loop_survives:
  assumes "v2_tasks s tid = Some t" and "\<not> v2_done t"
  shows "fst (reminder_loop env tid n s)"
  using assms
proof (induction n arbitrary: s)
  case 0
  then show ?case by simp
next
  case (Suc n)
  from reminder_body_survives[OF Suc.prems, of env]
  obtain s' where b: "reminder_body env tid s = (True, s')" and t: "v2_tasks s' = v2_tasks s"
    by (cases "reminder_body env tid s") auto
  with Suc show ?case by simp
qed

text \<open>
  C6. The claim asks that a reminder loop whose text request or send fails during a firing
  keeps running and tries again after the next interval. The loop of version 0.2 does
  (\<open>reminder_loop_survives\<close>). The loop of version 0.3 does not: with an open task, a
  failing text request (or a failing send) ends the reminder task with that exception, and
  no later expiry of the sleep sends anything, even when every later request would succeed.
\<close>

theorem remind_loop_dies_on_failure:
  "remind_fire (flaky_env 0) 0 (sample_state False Pending) =
     (sample_state False Pending)\<lparr>n_io := 1,
        timers := [\<lparr>t_chat = 7, t_task = [0x75], t_status = Failed GenerationError\<rparr>],
        trace := [Exited 0]\<rparr>
   \<and> remind_fire (flaky_env 1) 0 (sample_state False Pending) =
     (sample_state False Pending)\<lparr>n_io := 2,
        timers := [\<lparr>t_chat = 7, t_task = [0x75], t_status = Failed SendError\<rparr>],
        trace := [Generated (lit ''remind'') (lit ''I haven't finished: Write report''),
                  Exited 0]\<rparr>
   \<and> (remind_fire calm_env 0 ^^ 5) (remind_fire (flaky_env 0) 0 (sample_state False Pending))
       = remind_fire (flaky_env 0) 0 (sample_state False Pending)"
proof (intro conjI)
  show a: "remind_fire (flaky_env 0) 0 (sample_state False Pending) =
     (sample_state False Pending)\<lparr>n_io := 1,
        timers := [\<lparr>t_chat = 7, t_task = [0x75], t_status = Failed GenerationError\<rparr>],
        trace := [Exited 0]\<rparr>"
    by (simp add: remind_fire_raise[where t="\<lparr>task_id = [0x75], task_text = lit ''Write report'',
          task_prio = Top, task_done = False\<rparr>"] sample_open_task flaky_env_def)
  show "remind_fire (flaky_env 1) 0 (sample_state False Pending) =
     (sample_state False Pending)\<lparr>n_io := 2,
        timers := [\<lparr>t_chat = 7, t_task = [0x75], t_status = Failed SendError\<rparr>],
        trace := [Generated (lit ''remind'') (lit ''I haven't finished: Write report''),
                  Exited 0]\<rparr>"
    by (simp add: remind_fire_def remind_body_def sample_state_def flaky_env_def andthen_def
        gpt_def send_message_def emit_def set_status_def lit_def)
  show "(remind_fire calm_env 0 ^^ 5) (remind_fire (flaky_env 0) 0 (sample_state False Pending))
       = remind_fire (flaky_env 0) 0 (sample_state False Pending)"
    by (rule funpow_fixed, subst (1 2) a, rule remind_fire_not_pending) simp
qed

section \<open>A button that names no task of the session\<close>

lemma unknown_task_done:
  assumes "users s c = Some u" and "find (\<lambda>t. task_id t = tid) (tasks u) = None"
    and "io env (n_io s) = Some r" and "cq_data cq = Some (lit ''done:'' @ tid)" and "cq_from cq = c"
  shows "handle_callback env cq s =
           (Raise StopIteration, s\<lparr>n_io := Suc (n_io s), trace := trace s @ [Answered (cq_id cq)]\<rparr>)"
  using assms
  by (simp add: handle_callback_def andthen_def answer_callback_query_def emit_def mark_done_def
      get_task_def)

lemma unknown_task_stuck:
  assumes "users s c = Some u" and "find (\<lambda>t. task_id t = tid) (tasks u) = None"
    and "io env (n_io s) = Some r" and "cq_data cq = Some (lit ''stuck:'' @ tid)" and "cq_from cq = c"
  shows "handle_callback env cq s =
           (Raise StopIteration, s\<lparr>n_io := Suc (n_io s), trace := trace s @ [Answered (cq_id cq)]\<rparr>)"
  using assms
  by (simp add: handle_callback_def andthen_def answer_callback_query_def emit_def mark_done_def
      get_task_def)

text \<open>
  C7. The claim asks that a done or stuck signal with a task id that is not in the session
  changes nothing, answers with a harmless message and never raises. The handler answers
  the callback query and then \<open>get_task\<close> raises: for chat 7, whose tasks have the ids
  \<open>u\<close> and \<open>uu\<close>, the buttons \<open>done:zz\<close> and \<open>stuck:zz\<close> end the handler with
  \<open>StopIteration\<close>, and a button pressed in a chat without a session ends it with
  \<open>KeyError\<close>. Session and reminder tasks stay as they were, and no message is sent.
\<close>

theorem unknown_task_raises:
  "telegram_webhook calm_env (Some (button_update 7 (lit ''done:zz''))) (sample_state False Pending)
     = (Raise StopIteration,
        (sample_state False Pending)\<lparr>n_io := 1, trace := [Answered (lit ''q'')]\<rparr>)
   \<and> telegram_webhook calm_env (Some (button_update 7 (lit ''stuck:zz''))) (sample_state False Pending)
     = (Raise StopIteration,
        (sample_state False Pending)\<lparr>n_io := 1, trace := [Answered (lit ''q'')]\<rparr>)
   \<and> telegram_webhook calm_env (Some (button_update 8 (lit ''done:u''))) (sample_state False Pending)
     = (Raise KeyError,
        (sample_state False Pending)\<lparr>n_io := 1, trace := [Answered (lit ''q'')]\<rparr>)"
proof -
  have u: "users (sample_state False Pending) 7 =
      Some \<lparr>tasks = [\<lparr>task_id = [0x75], task_text = lit ''Write report'', task_prio = Top,
                       task_done = False\<rparr>,
                     \<lparr>task_id = [0x75, 0x75], task_text = lit ''Call Bob'', task_prio = Mid,
                       task_done = False\<rparr>],
             pointer = 0, reminder = Some 0\<rparr>"
    by (simp add: sample_state_def)
  have zz: "lit ''done:zz'' = lit ''done:'' @ lit ''zz''" "lit ''stuck:zz'' = lit ''stuck:'' @ lit ''zz''"
    by (simp_all add: lit_def)
  have nf: "find (\<lambda>t. task_id t = lit ''zz'')
      (tasks \<lparr>tasks = [\<lparr>task_id = [0x75], task_text = lit ''Write report'', task_prio = Top,
                       task_done = False\<rparr>,
                     \<lparr>task_id = [0x75, 0x75], task_text = lit ''Call Bob'', task_prio = Mid,
                       task_done = False\<rparr>],
             pointer = 0, reminder = Some 0\<rparr>) = None"
    by (simp add: lit_def)
  have io: "io calm_env (n_io (sample_state False Pending)) = Some (lit ''Go!'')"
    by (simp add: calm_env_def)
  have a: "telegram_webhook calm_env (Some (button_update 7 (lit ''done:zz''))) (sample_state False Pending)
     = (Raise StopIteration,
        (sample_state False Pending)\<lparr>n_io := 1, trace := [Answered (lit ''q'')]\<rparr>)"
    using unknown_task_done[OF u nf io, where cq="\<lparr>cq_id = lit ''q'', cq_data = Some (lit ''done:zz''), cq_from = 7\<rparr>"]
    by (simp add: telegram_webhook_def button_update_def zz)
  have b: "telegram_webhook calm_env (Some (button_update 7 (lit ''stuck:zz''))) (sample_state False Pending)
     = (Raise StopIteration,
        (sample_state False Pending)\<lparr>n_io := 1, trace := [Answered (lit ''q'')]\<rparr>)"
    using unknown_task_stuck[OF u nf io, where cq="\<lparr>cq_id = lit ''q'', cq_data = Some (lit ''stuck:zz''), cq_from = 7\<rparr>"]
    by (simp add: telegram_webhook_def button_update_def zz)
  have dn: "lit ''done:u'' = lit ''done:'' @ [0x75]" by (simp add: lit_def)
  have c: "telegram_webhook calm_env (Some (button_update 8 (lit ''done:u''))) (sample_state False Pending)
     = (Raise KeyError,
        (sample_state False Pending)\<lparr>n_io := 1, trace := [Answered (lit ''q'')]\<rparr>)"
    by (simp add: telegram_webhook_def button_update_def dn handle_callback_def andthen_def
        answer_callback_query_def emit_def mark_done_def get_task_def calm_env_def)
      (simp add: sample_state_def)
  from a b c show ?thesis by simp
qed


section \<open>The response of the webhook\<close>

lemma io_total:
  assumes "\<forall>n. io env n \<noteq> None"
  shows "\<exists>f. \<forall>n. io env n = Some (f n)"
proof -
  from assms have "\<forall>n. \<exists>y. io env n = Some y" by auto
  then show ?thesis by metis
qed

lemma start_focus_returns:
  assumes "\<forall>n. io env n \<noteq> None"
  shows "fst (start_focus env c s) = Ok ()"
proof -
  from io_total[OF assms] obtain f where f: "\<And>n. io env n = Some (f n)" by blast
  show ?thesis
    by (cases "users s c")
      (simp_all add: start_focus_def next_task_def Let_def send_message_def gpt_def emit_def
        andthen_def create_reminder_def f)
qed

lemma add_tasks_returns:
  "users s c \<noteq> None \<Longrightarrow> fst (add_tasks_from_morning env c raw s) = Ok ()"
  by (auto simp: add_tasks_from_morning_def Let_def split: prod.splits option.splits)

lemma setdefault_session: "users (setdefault c s) c \<noteq> None"
  by (simp add: setdefault_def split: option.splits)

lemma handle_message_returns:
  assumes "\<forall>n. io env n \<noteq> None"
  shows "fst (handle_message env c raw s) = Ok ok_true"
proof -
  from io_total[OF assms] obtain f where f: "\<And>n. io env n = Some (f n)" by blast
  have sf: "start_focus env c s' \<noteq> (Raise e, s'')" for s' s'' e
    using start_focus_returns[OF assms, of c s'] by auto
  have at: "fst (add_tasks_from_morning env c (strip raw) (setdefault c s)) = Ok ()"
    by (rule add_tasks_returns) (rule setdefault_session)
  show ?thesis
    using sf at
    by (auto simp: handle_message_def Let_def andthen_def gpt_def send_message_def emit_def f
        split: prod.splits res.splits)
qed

lemma get_task_found:
  "users s c = Some u \<Longrightarrow> find (\<lambda>t. task_id t = tid) (tasks u) = Some t \<Longrightarrow>
     get_task c tid s = (Ok t, s)"
  by (simp add: get_task_def)

lemma mark_done_returns:
  "users s c = Some u \<Longrightarrow> find (\<lambda>t. task_id t = tid) (tasks u) = Some t \<Longrightarrow>
     fst (mark_done c tid s) = Ok ()"
  by (simp add: mark_done_def get_task_def Let_def)

lemma handle_callback_returns:
  assumes "\<forall>n. io env n \<noteq> None"
    and "split_colon (case cq_data cq of None \<Rightarrow> [] | Some d \<Rightarrow> d) = Some (action, tid)"
    and "action = lit ''done'' \<or> action = lit ''stuck'' \<Longrightarrow>
           \<exists>u t. users s (cq_from cq) = Some u \<and> find (\<lambda>t. task_id t = tid) (tasks u) = Some t"
  shows "fst (handle_callback env cq s) = Ok ok_true"
proof -
  from io_total[OF assms(1)] obtain f where f: "\<And>n. io env n = Some (f n)" by blast
  have sf: "start_focus env c s' \<noteq> (Raise e, s'')" for s' s'' e c
    using start_focus_returns[OF assms(1), of c s'] by auto
  let ?s1 = "s\<lparr>n_io := Suc (n_io s), trace := trace s @ [Answered (cq_id cq)]\<rparr>"
  show ?thesis
  proof (cases "action = lit ''done'' \<or> action = lit ''stuck''")
    case False
    with assms(2) show ?thesis
      by (simp add: handle_callback_def andthen_def answer_callback_query_def emit_def f)
  next
    case True
    with assms(3) obtain u t where u: "users s (cq_from cq) = Some u"
      and t: "find (\<lambda>t. task_id t = tid) (tasks u) = Some t" by blast
    have md: "fst (mark_done (cq_from cq) tid ?s1) = Ok ()"
      by (rule mark_done_returns[where u=u and t=t]) (simp_all add: u t)
    have gt: "get_task (cq_from cq) tid ?s1 = (Ok t, ?s1)"
      by (rule get_task_found[where u=u]) (simp_all add: u t)
    from True assms(2) md gt sf show ?thesis
      by (auto simp: handle_callback_def andthen_def answer_callback_query_def emit_def f
          gpt_def send_message_def split: prod.splits res.splits)
  qed
qed

lemma webhook_returns:
  assumes "\<forall>n. io env n \<noteq> None"
    and "case callback_query upd of
           None \<Rightarrow> True
         | Some cq \<Rightarrow>
             (case split_colon (case cq_data cq of None \<Rightarrow> [] | Some d \<Rightarrow> d) of
                None \<Rightarrow> False
              | Some (action, tid) \<Rightarrow>
                  action = lit ''done'' \<or> action = lit ''stuck'' \<longrightarrow>
                    (\<exists>u t. users s (cq_from cq) = Some u
                         \<and> find (\<lambda>t. task_id t = tid) (tasks u) = Some t))"
  shows "fst (telegram_webhook env (Some upd) s) = Ok ok_true"
proof (cases "callback_query upd")
  case None
  then show ?thesis
    using handle_message_returns[OF assms(1)]
    by (simp add: telegram_webhook_def split: option.splits)
next
  case (Some cq)
  with assms(2) obtain action tid where
    sp: "split_colon (case cq_data cq of None \<Rightarrow> [] | Some d \<Rightarrow> d) = Some (action, tid)"
    and ex: "action = lit ''done'' \<or> action = lit ''stuck'' \<longrightarrow>
                    (\<exists>u t. users s (cq_from cq) = Some u
                         \<and> find (\<lambda>t. task_id t = tid) (tasks u) = Some t)"
    by (auto split: option.splits)
  have "fst (handle_callback env cq s) = Ok ok_true"
    using assms(1) sp ex[rule_format] by (rule handle_callback_returns)
  with Some show ?thesis
    by (simp add: telegram_webhook_def)
qed


lemma andthen_const:
  assumes "andthen m f s = (Ok r, s')" and "\<And>x s1 r s2. f x s1 = (Ok r, s2) \<Longrightarrow> r = v"
  shows "r = v"
  using assms by (auto simp: andthen_def split: prod.splits res.splits)

lemma handle_callback_const:
  assumes "handle_callback env cq s = (Ok r, s')"
  shows "r = ok_true"
  using assms unfolding handle_callback_def
  by (auto split: option.splits prod.splits if_splits elim!: andthen_const)

lemma handle_message_const:
  assumes "handle_message env c raw s = (Ok r, s')"
  shows "r = ok_true"
  using assms unfolding handle_message_def Let_def
  by (auto split: option.splits prod.splits if_splits elim!: andthen_const)

lemma webhook_const:
  assumes "telegram_webhook env req s = (Ok r, s')"
  shows "r = ok_true"
  using assms unfolding telegram_webhook_def
  by (auto split: option.splits if_splits dest: handle_callback_const handle_message_const)

text \<open>
  C9 as stated fails: the handler has no \<open>try\<close>, so a body that is no valid update, callback
  data without a colon, and a failed request to the messenger each leave it as an
  exception instead of the acknowledgement.
\<close>

theorem webhook_raises:
  "telegram_webhook calm_env None init_state = (Raise ValidationError, init_state)
   \<and> fst (telegram_webhook calm_env (Some (button_update 7 (lit ''done''))) init_state)
       = Raise ValueError
   \<and> fst (telegram_webhook (flaky_env 0) (Some (text_update 7 (lit ''/start''))) init_state)
       = Raise SendError"
  by (simp add: telegram_webhook_def button_update_def text_update_def handle_callback_def
      handle_message_def split_colon_def lit_def strip_def lower_def is_space_def Let_def
      andthen_def send_message_def setdefault_def init_state_def flaky_env_def)


text \<open>
  C9, amended. Whenever the handler returns, it returns the constant \<open>{"ok": True}\<close>.
  It returns for every valid update all of whose external requests succeed, provided that
  the data of a callback query has the form \<open>action:tid\<close> and, for the actions \<open>done\<close>
  and \<open>stuck\<close>, \<open>tid\<close> is the id of a task in the session of the sender.
\<close>

theorem webhook_ack:
  "(telegram_webhook env req s = (Ok r, s') \<longrightarrow> r = ok_true)
   \<and> ((\<forall>n. io env n \<noteq> None) \<and> req = Some upd
        \<and> (case callback_query upd of
             None \<Rightarrow> True
           | Some cq \<Rightarrow>
               (case split_colon (case cq_data cq of None \<Rightarrow> [] | Some d \<Rightarrow> d) of
                  None \<Rightarrow> False
                | Some (action, tid) \<Rightarrow>
                    action = lit ''done'' \<or> action = lit ''stuck'' \<longrightarrow>
                      (\<exists>u t. users s (cq_from cq) = Some u
                           \<and> find (\<lambda>t. task_id t = tid) (tasks u) = Some t)))
      \<longrightarrow> fst (telegram_webhook env req s) = Ok ok_true)"
  using webhook_const[where env=env and req=req and s=s and r=r and s'=s']
    webhook_returns[where env=env and upd=upd and s=s]
  by blast

theorem webhook_ack_witness:
  "fst (telegram_webhook calm_env (Some (text_update 7 (lit ''/start''))) init_state) = Ok ok_true
   \<and> fst (telegram_webhook calm_env (Some (button_update 7 (lit ''done:u'')))
        (sample_state False Pending)) = Ok ok_true"
proof -
  have io: "\<forall>n. io calm_env n \<noteq> None"
    by (simp add: calm_env_def)
  have a: "case callback_query (text_update 7 (lit ''/start'')) of
           None \<Rightarrow> True
         | Some cq \<Rightarrow>
             (case split_colon (case cq_data cq of None \<Rightarrow> [] | Some d \<Rightarrow> d) of
                None \<Rightarrow> False
              | Some (action, tid) \<Rightarrow>
                  action = lit ''done'' \<or> action = lit ''stuck'' \<longrightarrow>
                    (\<exists>u t. users init_state (cq_from cq) = Some u
                         \<and> find (\<lambda>t. task_id t = tid) (tasks u) = Some t))"
    by (simp add: text_update_def)
  have dn: "lit ''done:u'' = lit ''done:'' @ [0x75]" by (simp add: lit_def)
  have b: "case callback_query (button_update 7 (lit ''done:u'')) of
           None \<Rightarrow> True
         | Some cq \<Rightarrow>
             (case split_colon (case cq_data cq of None \<Rightarrow> [] | Some d \<Rightarrow> d) of
                None \<Rightarrow> False
              | Some (action, tid) \<Rightarrow>
                  action = lit ''done'' \<or> action = lit ''stuck'' \<longrightarrow>
                    (\<exists>u t. users (sample_state False Pending) (cq_from cq) = Some u
                         \<and> find (\<lambda>t. task_id t = tid) (tasks u) = Some t))"
    by (simp add: button_update_def dn sample_state_def)
  from webhook_ack[where env=calm_env and req="Some (text_update 7 (lit ''/start''))"
      and upd="text_update 7 (lit ''/start'')" and s=init_state] io a
  have 1: "fst (telegram_webhook calm_env (Some (text_update 7 (lit ''/start''))) init_state)
      = Ok ok_true"
    by blast
  from webhook_ack[where env=calm_env and req="Some (button_update 7 (lit ''done:u''))"
      and upd="button_update 7 (lit ''done:u'')" and s="sample_state False Pending"] io b
  have 2: "fst (telegram_webhook calm_env (Some (button_update 7 (lit ''done:u'')))
        (sample_state False Pending)) = Ok ok_true"
    by blast
  from 1 2 show ?thesis by simp
qed

section \<open>The queue builder\<close>

lemma append_tasks_eq:
  "append_tasks env pr ls (ts, n) = (ts @ fresh_tasks env pr n ls, n + length ls)"
  by (induction ls arbitrary: ts n) simp_all

lemma fresh_tasks_text [simp]: "map task_text (fresh_tasks env pr n ls) = ls"
  by (induction ls arbitrary: n) simp_all

lemma fresh_tasks_prio [simp]: "map task_prio (fresh_tasks env pr n ls) = replicate (length ls) pr"
  by (induction ls arbitrary: n) simp_all

lemma fresh_tasks_done [simp]: "map task_done (fresh_tasks env pr n ls) = replicate (length ls) False"
  by (induction ls arbitrary: n) simp_all

lemma three_slices: "take 1 ls @ take 3 (drop 1 ls) @ drop 4 ls = ls"
proof -
  have "drop 4 ls = drop 3 (drop 1 ls)" by simp
  then show ?thesis by (simp only: append_take_drop_id)
qed

lemma build_queue_eq:
  "build_queue env n raw =
     (fresh_tasks env Top n (take 1 (morning_lines raw))
      @ fresh_tasks env Mid (n + length (take 1 (morning_lines raw))) (take 3 (drop 1 (morning_lines raw)))
      @ fresh_tasks env Extra (n + length (take 1 (morning_lines raw))
           + length (take 3 (drop 1 (morning_lines raw)))) (drop 4 (morning_lines raw)),
      n + length (morning_lines raw))"
proof -
  have "length (take 1 ls) + length (take 3 (drop 1 ls)) + length (drop 4 ls) = length ls"
    for ls :: "pystr list"
    by auto
  then show ?thesis
    by (simp add: build_queue_def Let_def append_tasks_eq add.assoc del: length_take length_drop)
qed

lemma build_queue_text: "map task_text (fst (build_queue env n raw)) = morning_lines raw"
  by (simp only: build_queue_eq fst_conv map_append fresh_tasks_text three_slices)

lemma build_queue_prio:
  "map task_prio (fst (build_queue env n raw)) =
     replicate (min 1 (length (morning_lines raw))) Top
     @ replicate (min 3 (length (morning_lines raw) - 1)) Mid
     @ replicate (length (morning_lines raw) - 4) Extra"
  by (simp add: build_queue_eq min.commute)

lemma build_queue_done: "t \<in> set (fst (build_queue env n raw)) \<Longrightarrow> \<not> task_done t"
  by (auto simp: build_queue_eq dest!: arg_cong[where f="\<lambda>x. x"] )
    (metis fresh_tasks_done imageI in_set_replicate list.set_map)+



lemma dropWhile_all: "(\<forall>x\<in>set (dropWhile P l). P x) \<longleftrightarrow> (\<forall>x\<in>set l. P x)"
proof
  assume a: "\<forall>x\<in>set (dropWhile P l). P x"
  have "dropWhile P l = []"
  proof (rule ccontr)
    assume n: "dropWhile P l \<noteq> []"
    then have "\<not> P (hd (dropWhile P l))" by (rule hd_dropWhile)
    moreover from n have "hd (dropWhile P l) \<in> set (dropWhile P l)" by simp
    ultimately show False using a by blast
  qed
  then show "\<forall>x\<in>set l. P x" by (simp add: dropWhile_eq_Nil_conv)
next
  assume "\<forall>x\<in>set l. P x"
  then show "\<forall>x\<in>set (dropWhile P l). P x" by (meson set_dropWhileD)
qed

lemma nonblank_strip: "strip l \<noteq> [] \<longleftrightarrow> (\<exists>c\<in>set l. \<not> is_space c)"
  using dropWhile_all[of is_space l] by (auto simp: strip_def dropWhile_eq_Nil_conv)

lemma linebreak_space: "is_linebreak c \<Longrightarrow> is_space c"
  by (auto simp: is_linebreak_def is_space_def)

lemma space_cr_lf: "is_space 0x0D" "is_space 0x0A" "is_linebreak 0x0A"
  by (simp_all add: is_space_def is_linebreak_def)

lemma splitlines_nonblank:
  "\<exists>c\<in>set (cur @ s). \<not> is_space c \<Longrightarrow>
     \<exists>l\<in>set (splitlines_from cur s). \<exists>c\<in>set l. \<not> is_space c"
proof (induction cur s rule: splitlines_from.induct)
  case (1 cur)
  then show ?case by auto
next
  case (2 cur c)
  then show ?case by (auto dest: linebreak_space)
next
  case (3 cur c d cs)
  show ?case
  proof (cases "c = 0x0D \<and> d = 0x0A")
    case True
    with 3 show ?thesis by (auto simp: space_cr_lf)
  next
    case False
    note nocrlf = this
    show ?thesis
    proof (cases "is_linebreak c")
      case True
      with 3 nocrlf show ?thesis by (auto dest: linebreak_space)
    next
      case False
      with 3 nocrlf show ?thesis by auto
    qed
  qed
qed

lemma splitlines_two:
  "s = a @ c # b \<Longrightarrow> is_linebreak c \<Longrightarrow> \<exists>x\<in>set (cur @ a). \<not> is_space x \<Longrightarrow>
     \<exists>x\<in>set b. \<not> is_space x \<Longrightarrow>
     2 \<le> length (filter (\<lambda>l. strip l \<noteq> []) (splitlines_from cur s))"
proof (induction cur s arbitrary: a rule: splitlines_from.induct)
  case (1 cur)
  then show ?case by simp
next
  case (2 cur c')
  then show ?case by (auto simp: Cons_eq_append_conv)
next
  case (3 cur c' d cs)
  have rest: "\<exists>x\<in>set r. \<not> is_space x \<Longrightarrow>
      1 \<le> length (filter (\<lambda>l. strip l \<noteq> []) (splitlines_from [] r))" for r
    using splitlines_nonblank[of "[]" r]
    by (auto simp: nonblank_strip filter_empty_conv Suc_le_eq)
  have tail: "\<exists>x\<in>set (p @ c # b). \<not> is_space x" for p
    using "3.prems"(4) by auto
  show ?case
  proof (cases "c' = 0x0D \<and> d = 0x0A")
    case True
    then have sl: "splitlines_from cur (c' # d # cs) = cur # splitlines_from [] cs" by simp
    show ?thesis
    proof (cases a)
      case Nil
      with "3.prems" True have "\<exists>x\<in>set cur. \<not> is_space x" "\<exists>x\<in>set cs. \<not> is_space x"
        by (auto simp: space_cr_lf)
      with rest[of cs] show ?thesis
        unfolding sl by (simp add: nonblank_strip)
    next
      case (Cons x a')
      with "3.prems"(1) have x: "x = c'" and da: "d # cs = a' @ c # b" by auto
      show ?thesis
      proof (cases a')
        case Nil
        with da "3.prems" Cons x True
        have "\<exists>x\<in>set cur. \<not> is_space x" "\<exists>x\<in>set cs. \<not> is_space x"
          by (auto simp: space_cr_lf)
        with rest[of cs] show ?thesis
          unfolding sl by (simp add: nonblank_strip)
      next
        case (Cons y a'')
        with da have y: "y = d" and cs: "cs = a'' @ c # b" by auto
        show ?thesis
        proof (cases "\<exists>x\<in>set cur. \<not> is_space x")
          case True
          with rest[of cs] tail[of a''] cs show ?thesis
            unfolding sl by (simp add: nonblank_strip)
        next
          case False
          with "3.prems"(3) \<open>a = x # a'\<close> \<open>a' = y # a''\<close> x y \<open>c' = 0x0D \<and> d = 0x0A\<close>
          have "\<exists>x\<in>set ([] @ a''). \<not> is_space x"
            by (auto simp: space_cr_lf)
          from "3.IH"(1)[OF \<open>c' = 0x0D \<and> d = 0x0A\<close> cs "3.prems"(2) this "3.prems"(4)]
          show ?thesis
            unfolding sl by simp
        qed
      qed
    qed
  next
    case False
    note nocrlf = this
    show ?thesis
    proof (cases "is_linebreak c'")
      case True
      with nocrlf have sl: "splitlines_from cur (c' # d # cs) = cur # splitlines_from [] (d # cs)"
        by auto
      show ?thesis
      proof (cases a)
        case Nil
        with "3.prems" have "\<exists>x\<in>set cur. \<not> is_space x" "\<exists>x\<in>set (d # cs). \<not> is_space x"
          by auto
        with rest[of "d # cs"] show ?thesis
          unfolding sl by (simp add: nonblank_strip)
      next
        case (Cons x a')
        with "3.prems"(1) have x: "x = c'" and da: "d # cs = a' @ c # b" by auto
        show ?thesis
        proof (cases "\<exists>x\<in>set cur. \<not> is_space x")
          case True
          with rest[of "d # cs"] tail[of a'] da show ?thesis
            unfolding sl by (simp add: nonblank_strip)
        next
          case False
          with "3.prems"(3) Cons x linebreak_space[OF \<open>is_linebreak c'\<close>]
          have "\<exists>x\<in>set ([] @ a'). \<not> is_space x"
            by auto
          from "3.IH"(2)[OF nocrlf \<open>is_linebreak c'\<close> da "3.prems"(2) this "3.prems"(4)]
          show ?thesis
            unfolding sl by simp
        qed
      qed
    next
      case False
      with nocrlf have sl: "splitlines_from cur (c' # d # cs) = splitlines_from (cur @ [c']) (d # cs)"
        by auto
      from False "3.prems"(1,2) obtain a' where a: "a = c' # a'" and da: "d # cs = a' @ c # b"
        by (cases a) auto
      from "3.prems"(3) a have "\<exists>x\<in>set ((cur @ [c']) @ a'). \<not> is_space x"
        by auto
      from "3.IH"(3)[OF nocrlf False da "3.prems"(2) this "3.prems"(4)]
      show ?thesis
        unfolding sl .
    qed
  qed
qed

lemma strip_hd:
  assumes "x \<noteq> []" and "\<not> P (hd x)"
  shows "rev (dropWhile P (rev x)) \<noteq> [] \<and> hd (rev (dropWhile P (rev x))) = hd x"
proof -
  from assms obtain h t where x: "x = h # t" and h: "\<not> P h" by (cases x) auto
  have "dropWhile P (rev t @ [h]) = dropWhile P (rev t) @ [h]
      \<or> dropWhile P (rev t @ [h]) = [h]"
    using h by (simp add: dropWhile_append)
  then show ?thesis
    using x h by auto
qed

lemma strip_ends:
  assumes "strip s \<noteq> []"
  shows "\<not> is_space (hd (strip s)) \<and> \<not> is_space (last (strip s))"
proof -
  let ?x = "dropWhile is_space s"
  have x: "?x \<noteq> []"
  proof
    assume e: "?x = []"
    have "strip s = []" unfolding strip_def e by simp
    with assms show False by simp
  qed
  then have hx: "\<not> is_space (hd ?x)" by (rule hd_dropWhile)
  from strip_hd[where P=is_space and x="?x", OF x hx] have "hd (strip s) = hd ?x" by (simp add: strip_def)
  with hx have 1: "\<not> is_space (hd (strip s))" by simp
  from assms have "dropWhile is_space (rev ?x) \<noteq> []" by (simp add: strip_def)
  then have "\<not> is_space (hd (dropWhile is_space (rev ?x)))" by (rule hd_dropWhile)
  moreover have "last (strip s) = hd (dropWhile is_space (rev ?x))"
    using assms by (simp add: strip_def last_rev)
  ultimately show ?thesis using 1 by simp
qed

lemma morning_input_two_lines:
  assumes "is_morning_input (strip txt)"
  shows "2 \<le> length (morning_lines (strip txt))"
proof -
  let ?t = "strip txt"
  from assms have nl: "0x0A \<in> set ?t" by (simp add: is_morning_input_def)
  then have ne: "?t \<noteq> []" by auto
  from strip_ends[OF ne] have h: "\<not> is_space (hd ?t)" and l: "\<not> is_space (last ?t)" by simp_all
  from nl obtain a b where t: "?t = a @ 0x0A # b" by (meson split_list)
  have "b \<noteq> []"
  proof
    assume "b = []"
    with t have "last ?t = 0x0A" by simp
    with l show False by (simp add: space_cr_lf)
  qed
  with t have "last b = last ?t" by simp
  with l \<open>b \<noteq> []\<close> have nb: "\<exists>x\<in>set b. \<not> is_space x" by (metis last_in_set)
  have "a \<noteq> []"
  proof
    assume "a = []"
    with t have "hd ?t = 0x0A" by simp
    with h show False by (simp add: space_cr_lf)
  qed
  with t have "hd a = hd ?t" by (metis hd_append2)
  with h \<open>a \<noteq> []\<close> have na: "\<exists>x\<in>set ([] @ a). \<not> is_space x" by (metis append_Nil hd_in_set)
  from splitlines_two[OF t space_cr_lf(3) na nb] show ?thesis
    by (simp add: morning_lines_def splitlines_def)
qed

lemma strip_subset: "set (strip l) \<subseteq> set l"
proof
  fix x assume "x \<in> set (strip l)"
  then have "x \<in> set (dropWhile is_space (rev (dropWhile is_space l)))"
    by (simp add: strip_def)
  then have "x \<in> set (rev (dropWhile is_space l))" by (rule set_dropWhileD)
  then have "x \<in> set (dropWhile is_space l)" by simp
  then show "x \<in> set l" by (rule set_dropWhileD)
qed

lemma strip_strip: "strip (strip l) = strip l"
proof (cases "strip l = []")
  case True
  show ?thesis unfolding True by (simp add: strip_def)
next
  case False
  from strip_ends[OF False] have h: "\<not> is_space (hd (strip l))"
    and t: "\<not> is_space (last (strip l))" by simp_all
  from False h have 1: "dropWhile is_space (strip l) = strip l"
    by (cases "strip l") auto
  from False t have 2: "dropWhile is_space (rev (strip l)) = rev (strip l)"
    by (cases "rev (strip l)") (auto simp: last_rev[symmetric] hd_rev)
  show ?thesis
    by (subst (1) strip_def) (simp only: 1 2 rev_rev_ident)
qed

lemma splitlines_no_break_all:
  "list_all (\<lambda>x. \<not> is_linebreak x) cur \<Longrightarrow>
     list_all (list_all (\<lambda>x. \<not> is_linebreak x)) (splitlines_from cur s)"
proof (induction cur s rule: splitlines_from.induct)
  case (1 cur)
  then show ?case by simp
next
  case (2 cur c)
  then show ?case by simp
next
  case (3 cur c d cs)
  show ?case
  proof (cases "c = 0x0D \<and> d = 0x0A")
    case True
    from "3.IH"(1)[OF True] "3.prems" True show ?thesis by simp
  next
    case False
    note nocrlf = this
    show ?thesis
    proof (cases "is_linebreak c")
      case True
      from "3.IH"(2)[OF nocrlf True] "3.prems" nocrlf True show ?thesis by auto
    next
      case False
      from "3.IH"(3)[OF nocrlf False] "3.prems" nocrlf False show ?thesis by auto
    qed
  qed
qed

lemma splitlines_no_break:
  "\<forall>x\<in>set cur. \<not> is_linebreak x \<Longrightarrow>
     \<forall>l\<in>set (splitlines_from cur s). \<forall>x\<in>set l. \<not> is_linebreak x"
  using splitlines_no_break_all[of cur s] by (simp add: list_all_iff)

lemma morning_lines_shape:
  assumes "l \<in> set (morning_lines raw)"
  shows "l \<noteq> [] \<and> strip l = l \<and> (\<forall>x\<in>set l. \<not> is_linebreak x)"
proof -
  from assms obtain l0 where l0: "l0 \<in> set (splitlines raw)" and ne: "strip l0 \<noteq> []"
    and l: "l = strip l0"
    by (auto simp: morning_lines_def)
  from l0 splitlines_no_break[of "[]" raw] have "\<forall>x\<in>set l0. \<not> is_linebreak x"
    by (simp add: splitlines_def)
  with strip_subset[of l0] l have "\<forall>x\<in>set l. \<not> is_linebreak x" by auto
  with ne l show ?thesis by (simp add: strip_strip)
qed

lemma add_tasks_eq:
  assumes "users s c = Some u"
  shows "add_tasks_from_morning env c raw s =
           (Ok (), (case reminder u of None \<Rightarrow> s | Some h \<Rightarrow> cancel c h s)
              \<lparr>users := (users s)(c \<mapsto> u\<lparr>tasks := fst (build_queue env (n_uuid s) raw), pointer := 0\<rparr>),
               n_uuid := snd (build_queue env (n_uuid s) raw)\<rparr>)"
  using assms
  by (auto simp: add_tasks_from_morning_def Let_def split: option.splits prod.splits)


lemma blank_lines: "morning_lines [0x20, 0x0A] = []"
  by (simp add: morning_lines_def splitlines_def strip_def is_space_def is_linebreak_def)

lemma goals_split:
  "splitlines goals_text =
     [lit ''Write report'', lit ''Call Bob'', lit ''Email team'', lit ''Backup files'',
      lit ''Clean desk'']"
  by (simp add: goals_text_def splitlines_def lit_def is_linebreak_def)

lemma strip_word: "\<not> is_space (hd w) \<Longrightarrow> \<not> is_space (last w) \<Longrightarrow> w \<noteq> [] \<Longrightarrow> strip w = w"
proof -
  assume h: "\<not> is_space (hd w)" and l: "\<not> is_space (last w)" and n: "w \<noteq> []"
  from n h have 1: "dropWhile is_space w = w" by (cases w) auto
  from n l have 2: "dropWhile is_space (rev w) = rev w"
    by (cases "rev w") (auto simp: last_rev[symmetric] hd_rev)
  show ?thesis unfolding strip_def 1 2 by simp
qed

lemma goals_lines:
  "morning_lines goals_text =
     [lit ''Write report'', lit ''Call Bob'', lit ''Email team'', lit ''Backup files'',
      lit ''Clean desk'']"
proof -
  have "strip (lit ''Write report'') = lit ''Write report''"
    "strip (lit ''Call Bob'') = lit ''Call Bob''"
    "strip (lit ''Email team'') = lit ''Email team''"
    "strip (lit ''Backup files'') = lit ''Backup files''"
    "strip (lit ''Clean desk'') = lit ''Clean desk''"
    by (rule strip_word; simp add: lit_def is_space_def)+
  moreover have "lit ''Write report'' \<noteq> []" "lit ''Call Bob'' \<noteq> []" "lit ''Email team'' \<noteq> []"
    "lit ''Backup files'' \<noteq> []" "lit ''Clean desk'' \<noteq> []"
    by (simp_all add: lit_def)
  ultimately show ?thesis
    by (simp add: morning_lines_def goals_split)
qed

lemma goals_stripped: "strip goals_text = goals_text"
  by (rule strip_word; simp add: goals_text_def lit_def is_space_def)

lemma goals_morning: "is_morning_input goals_text"
  by (simp add: is_morning_input_def goals_text_def)

lemma sample_user:
  "users (sample_state d st) 7 =
     Some \<lparr>tasks = [\<lparr>task_id = [0x75], task_text = lit ''Write report'', task_prio = Top,
                      task_done = d\<rparr>,
                    \<lparr>task_id = [0x75, 0x75], task_text = lit ''Call Bob'', task_prio = Mid,
                      task_done = False\<rparr>],
            pointer = 0, reminder = Some 0\<rparr>"
  by (simp add: sample_state_def)


text \<open>
  C3. \<open>add_tasks_from_morning\<close> splits the text at its line boundaries, strips every line
  and drops the lines that are empty then; each line kept is non-empty, has no white space
  at either end and holds no line boundary. The session's new queue has one task per line
  kept, in the order of the lines, none of them done: the first line with tier top, the next
  up to three lines with tier mid, every further line with tier extra. A goal submission
  (the stripped text of a message, holding a line feed) has at least two such lines, so its
  queue starts with exactly one top task.
\<close>

theorem queue_builder_tiers:
  assumes "users s c = Some u"
  shows "\<exists>u'. users (snd (add_tasks_from_morning env c raw s)) c = Some u'
     \<and> pointer u' = 0
     \<and> map task_text (tasks u') = morning_lines raw
     \<and> map task_prio (tasks u') =
          replicate (min 1 (length (morning_lines raw))) Top
          @ replicate (min 3 (length (morning_lines raw) - 1)) Mid
          @ replicate (length (morning_lines raw) - 4) Extra
     \<and> (\<forall>t\<in>set (tasks u'). \<not> task_done t)
     \<and> (\<forall>l\<in>set (morning_lines raw). l \<noteq> [] \<and> strip l = l \<and> (\<forall>x\<in>set l. \<not> is_linebreak x))
     \<and> (raw = strip msg \<and> is_morning_input raw \<longrightarrow>
          (\<exists>top rest. morning_lines raw = top # rest \<and> rest \<noteq> []
             \<and> map task_prio (tasks u') =
                  Top # replicate (min 3 (length rest)) Mid @ replicate (length rest - 3) Extra))"
proof -
  let ?u = "u\<lparr>tasks := fst (build_queue env (n_uuid s) raw), pointer := 0\<rparr>"
  have u': "users (snd (add_tasks_from_morning env c raw s)) c = Some ?u"
    by (simp add: add_tasks_eq[OF assms])
  have two: "\<exists>top rest. morning_lines raw = top # rest \<and> rest \<noteq> []
      \<and> map task_prio (tasks ?u) =
          Top # replicate (min 3 (length rest)) Mid @ replicate (length rest - 3) Extra"
    if "raw = strip msg \<and> is_morning_input raw"
  proof -
    from that have r: "raw = strip msg" and m: "is_morning_input (strip msg)" by auto
    from morning_input_two_lines[OF m] have "2 \<le> length (morning_lines raw)"
      unfolding r .
    then obtain top rest where ls: "morning_lines raw = top # rest"
      by (cases "morning_lines raw") auto
    with \<open>2 \<le> length (morning_lines raw)\<close> have ne: "rest \<noteq> []" by auto
    from ls ne show ?thesis
      by (simp add: build_queue_prio)
  qed
  have nd: "\<forall>t\<in>set (tasks ?u). \<not> task_done t"
    using build_queue_done[of _ env "n_uuid s" raw] by simp
  have shape: "\<forall>l\<in>set (morning_lines raw).
      l \<noteq> [] \<and> strip l = l \<and> (\<forall>x\<in>set l. \<not> is_linebreak x)"
    using morning_lines_shape[of _ raw] by blast
  have tx: "map task_text (tasks ?u) = morning_lines raw"
    by (simp add: build_queue_text)
  have prio: "map task_prio (tasks ?u) =
          replicate (min 1 (length (morning_lines raw))) Top
          @ replicate (min 3 (length (morning_lines raw) - 1)) Mid
          @ replicate (length (morning_lines raw) - 4) Extra"
    by (simp add: build_queue_prio)
  have p0: "pointer ?u = 0" by simp
  from u' p0 tx prio nd shape two show ?thesis
    by (intro exI[of _ ?u] conjI impI)
qed

theorem queue_builder_tiers_witness:
  "\<exists>u'. users (snd (add_tasks_from_morning calm_env 7 goals_text (sample_state False Pending))) 7
          = Some u'
     \<and> pointer u' = 0
     \<and> map task_text (tasks u') =
          [lit ''Write report'', lit ''Call Bob'', lit ''Email team'', lit ''Backup files'',
           lit ''Clean desk'']
     \<and> map task_prio (tasks u') = [Top, Mid, Mid, Mid, Extra]
     \<and> is_morning_input goals_text \<and> goals_text = strip goals_text"
proof -
  from queue_builder_tiers[OF sample_user[of False Pending], where env=calm_env
      and raw=goals_text and msg=goals_text]
  obtain u' where
    "users (snd (add_tasks_from_morning calm_env 7 goals_text (sample_state False Pending))) 7
       = Some u'"
    and "pointer u' = 0"
    and "map task_text (tasks u') = morning_lines goals_text"
    and "map task_prio (tasks u') =
          replicate (min 1 (length (morning_lines goals_text))) Top
          @ replicate (min 3 (length (morning_lines goals_text) - 1)) Mid
          @ replicate (length (morning_lines goals_text) - 4) Extra"
    by blast
  then show ?thesis
    by (intro exI[of _ u']) (simp add: goals_lines goals_morning goals_stripped numeral_eq_Suc)
qed

section \<open>A submission without a non-empty line\<close>

lemma blank_strip:
  assumes "morning_lines raw = []"
  shows "strip raw = []"
proof (rule ccontr)
  assume "strip raw \<noteq> []"
  then have "\<exists>c\<in>set ([] @ raw). \<not> is_space c" by (simp add: nonblank_strip)
  from splitlines_nonblank[OF this] obtain l where "l \<in> set (splitlines raw)" "strip l \<noteq> []"
    by (auto simp: splitlines_def nonblank_strip)
  then have "strip l \<in> set (morning_lines raw)" by (simp add: morning_lines_def)
  with assms show False by simp
qed

lemma start_word: "lit ''/start'' \<noteq> []"
  by (simp add: lit_def)




section \<open>The pointer advancer\<close>

subsection \<open>Sequencing\<close>

lemma tripleI:
  "(\<And>s x s'. P s \<Longrightarrow> m s = (Ok x, s') \<Longrightarrow> Q x s') \<Longrightarrow>
   (\<And>s e s'. P s \<Longrightarrow> m s = (Raise e, s') \<Longrightarrow> E s') \<Longrightarrow> triple P m Q E"
  by (auto simp: triple_def split: prod.splits res.splits)

lemma tripleD_Ok: "triple P m Q E \<Longrightarrow> P s \<Longrightarrow> m s = (Ok x, s') \<Longrightarrow> Q x s'"
  by (auto simp: triple_def split: prod.splits res.splits)

lemma tripleD_Raise: "triple P m Q E \<Longrightarrow> P s \<Longrightarrow> m s = (Raise e, s') \<Longrightarrow> E s'"
  by (auto simp: triple_def split: prod.splits res.splits)

lemma triple_andthen:
  assumes "triple P m Q E" and "\<And>x. triple (Q x) (f x) R E"
  shows "triple P (andthen m f) R E"
proof (rule tripleI)
  fix s x s' assume P: "P s" and r: "andthen m f s = (Ok x, s')"
  then obtain y s1 where m: "m s = (Ok y, s1)" and f: "f y s1 = (Ok x, s')"
    by (auto simp: andthen_def split: prod.splits res.splits)
  from tripleD_Ok[OF assms(1) P m] have "Q y s1" .
  from tripleD_Ok[OF assms(2) this f] show "R x s'" .
next
  fix s e s' assume P: "P s" and r: "andthen m f s = (Raise e, s')"
  then consider "m s = (Raise e, s')" | y s1 where "m s = (Ok y, s1)" "f y s1 = (Raise e, s')"
    by (auto simp: andthen_def split: prod.splits res.splits)
  then show "E s'"
  proof cases
    case 1
    from tripleD_Raise[OF assms(1) P 1] show ?thesis .
  next
    case 2
    from tripleD_Ok[OF assms(1) P 2(1)] have "Q y s1" .
    from tripleD_Raise[OF assms(2) this 2(2)] show ?thesis .
  qed
qed

lemma triple_andthen_inv:
  assumes "triple P m (\<lambda>_. P) P" and "\<And>x. triple P (f x) (\<lambda>_. P) P"
  shows "triple P (andthen m f) (\<lambda>_. P) P"
  using assms by (rule triple_andthen)

lemma triple_return: "(\<And>s. P s \<Longrightarrow> Q x s) \<Longrightarrow> triple P (\<lambda>s. (Ok x, s)) Q E"
  by (simp add: triple_def)

lemma triple_weaken:
  "triple P m Q E \<Longrightarrow> (\<And>s. P' s \<Longrightarrow> P s) \<Longrightarrow> (\<And>x s. Q x s \<Longrightarrow> Q' x s) \<Longrightarrow>
   (\<And>s. E s \<Longrightarrow> E' s) \<Longrightarrow> triple P' m Q' E'"
  by (rule tripleI) (blast dest: tripleD_Ok tripleD_Raise)+

text \<open>
  A request to the outside touches only the request counter and the trace.
\<close>

lemma triple_gpt:
  "(\<And>s n tr. P s \<Longrightarrow> P (s\<lparr>n_io := n, trace := tr\<rparr>)) \<Longrightarrow> (\<And>s n. P s \<Longrightarrow> P (s\<lparr>n_io := n\<rparr>)) \<Longrightarrow>
     triple P (gpt env role ct) (\<lambda>_. P) P"
  by (auto simp: triple_def gpt_def emit_def split: option.splits)


lemma triple_send:
  "(\<And>s n tr. P s \<Longrightarrow> P (s\<lparr>n_io := n, trace := tr\<rparr>)) \<Longrightarrow> (\<And>s n. P s \<Longrightarrow> P (s\<lparr>n_io := n\<rparr>)) \<Longrightarrow>
     triple P (send_message env c b kb) (\<lambda>_. P) P"
  by (auto simp: triple_def send_message_def emit_def split: option.splits)

lemma triple_answer:
  "(\<And>s n tr. P s \<Longrightarrow> P (s\<lparr>n_io := n, trace := tr\<rparr>)) \<Longrightarrow> (\<And>s n. P s \<Longrightarrow> P (s\<lparr>n_io := n\<rparr>)) \<Longrightarrow>
     triple P (answer_callback_query env q) (\<lambda>_. P) P"
  by (auto simp: triple_def answer_callback_query_def emit_def split: option.splits)

subsection \<open>advance\<close>

lemma advance_step:
  "p < length ts \<Longrightarrow> task_done (ts ! p) \<Longrightarrow> advance ts p = advance ts (Suc p)"
  by (subst advance.simps) simp

lemma advance_stop: "\<not> (p < length ts \<and> task_done (ts ! p)) \<Longrightarrow> advance ts p = p"
  by (subst advance.simps) auto

lemma advance_ge: "p \<le> advance ts p"
  by (induction ts p rule: advance.induct) (subst advance.simps, auto)

lemma advance_skipped: "p \<le> i \<Longrightarrow> i < advance ts p \<Longrightarrow> i < length ts \<and> task_done (ts ! i)"
proof (induction ts p rule: advance.induct)
  case (1 ts p)
  show ?case
  proof (cases "p < length ts \<and> task_done (ts ! p)")
    case True
    then have a: "advance ts p = advance ts (Suc p)" by (simp add: advance_step)
    show ?thesis
    proof (cases "i = p")
      case True
      with \<open>p < length ts \<and> task_done (ts ! p)\<close> show ?thesis by simp
    next
      case False
      with "1.prems" have "Suc p \<le> i" by simp
      from "1.IH"[OF True this] "1.prems"(2) a show ?thesis by simp
    qed
  next
    case False
    then have "advance ts p = p" by (rule advance_stop)
    with "1.prems" show ?thesis by simp
  qed
qed

lemma advance_open: "advance ts p < length ts \<Longrightarrow> \<not> task_done (ts ! advance ts p)"
proof (induction ts p rule: advance.induct)
  case (1 ts p)
  show ?case
  proof (cases "p < length ts \<and> task_done (ts ! p)")
    case True
    then have a: "advance ts p = advance ts (Suc p)" by (simp add: advance_step)
    from "1.IH"[OF True] "1.prems" a show ?thesis by simp
  next
    case False
    then have "advance ts p = p" by (rule advance_stop)
    with "1.prems" False show ?thesis by simp
  qed
qed

subsection \<open>Sessions only grow under done signals\<close>

lemma session_le_refl [simp]: "session_le u u"
  by (simp add: session_le_def)

lemma session_le_trans: "session_le u v \<Longrightarrow> session_le v w \<Longrightarrow> session_le u w"
  by (auto simp: session_le_def)

lemma grows_refl [simp]: "grows c s s"
  by (simp add: grows_def split: option.splits)

lemma grows_trans: "grows c s t \<Longrightarrow> grows c t r \<Longrightarrow> grows c s r"
  by (auto simp: grows_def split: option.splits intro: session_le_trans)

lemma grows_same_users: "users s' = users s \<Longrightarrow> grows c s s'"
  by (simp add: grows_def split: option.splits)

lemma grows_frame [simp]:
  "grows c s0 (s\<lparr>n_io := n\<rparr>) = grows c s0 s"
  "grows c s0 (s\<lparr>trace := tr\<rparr>) = grows c s0 s"
  "grows c s0 (s\<lparr>timers := tm\<rparr>) = grows c s0 s"
  "grows c s0 (s\<lparr>n_uuid := k\<rparr>) = grows c s0 s"
  by (simp_all add: grows_def split: option.splits)

lemma mark_first_length [simp]: "length (mark_first tid ts) = length ts"
  by (induction ts) simp_all

lemma mark_first_done: "i < length ts \<Longrightarrow> task_done (ts ! i) \<Longrightarrow> task_done (mark_first tid ts ! i)"
proof (induction ts arbitrary: i)
  case Nil
  then show ?case by simp
next
  case (Cons t ts)
  then show ?case by (cases i) auto
qed

lemma grows_update:
  assumes "grows c s0 s" and "users s c' = Some u" and "session_le u u'"
  shows "grows c s0 (s\<lparr>users := (users s)(c' \<mapsto> u')\<rparr>)"
  using assms
  by (auto simp: grows_def split: option.splits intro: session_le_trans)

lemma grows_users_eq: "users s' = users s \<Longrightarrow> grows c s0 s = grows c s0 s'"
  by (simp add: grows_def split: option.splits)

lemma triple_if:
  "(b \<Longrightarrow> triple P m Q E) \<Longrightarrow> (\<not> b \<Longrightarrow> triple P m' Q E) \<Longrightarrow>
     triple P (if b then m else m') Q E"
  by simp

lemma start_focus_triple:
  assumes nt: "\<And>s. P s \<Longrightarrow> P1 (snd (next_task c' s))"
    and none: "triple P1 (send_message env c' MsgDayComplete None) Q E"
    and some: "\<And>t :: task. triple P1
        (andthen (gpt env (lit ''coach'') (lit ''Start focusing on: '' @ task_text t))
          (\<lambda>msg. andthen (send_message env c' (MsgText msg) (Some (build_keyboard (task_id t))))
            (\<lambda>_. create_reminder c' (task_id t)))) Q E"
  shows "triple P (start_focus env c') Q E"
proof -
  have "case start_focus env c' s of (Ok x, s') \<Rightarrow> Q x s' | (Raise e, s') \<Rightarrow> E s'" if P: "P s" for s
  proof (cases "next_task c' s")
    case (Pair r s1)
    with nt[OF P] have p1: "P1 s1" by simp
    show ?thesis
    proof (cases r)
      case None
      with Pair none p1 show ?thesis
        by (simp add: start_focus_def triple_def)
    next
      case (Some t)
      with Pair some[of t] p1 show ?thesis
        by (simp add: start_focus_def triple_def)
    qed
  qed
  then show ?thesis by (simp add: triple_def)
qed

lemma next_task_grows: "grows c s (snd (next_task c' s))"
  by (auto simp: next_task_def Let_def session_le_def advance_ge split: option.splits
      intro!: grows_update)

lemma create_reminder_grows: "triple (grows c s0) (create_reminder c' tid) (\<lambda>_. grows c s0) (grows c s0)"
proof (rule tripleI)
  fix s x s' assume g: "grows c s0 s" and m: "create_reminder c' tid s = (Ok x, s')"
  then obtain u where u: "users s c' = Some u"
    and us: "users s' = (users s)(c' \<mapsto> u\<lparr>reminder := Some (length (timers s))\<rparr>)"
    by (auto simp: create_reminder_def Let_def emit_def split: option.splits)
  have "session_le u (u\<lparr>reminder := Some (length (timers s))\<rparr>)"
    by (simp add: session_le_def)
  from grows_update[OF g u this] show "grows c s0 s'"
    by (subst grows_users_eq[where s=s']) (simp_all add: us)
next
  fix s e s' assume g: "grows c s0 s" and m: "create_reminder c' tid s = (Raise e, s')"
  then have "users s' = users s"
    by (auto simp: create_reminder_def Let_def emit_def split: option.splits)
  from grows_users_eq[OF this, of c s0] g show "grows c s0 s'" by simp
qed

lemma io_grows:
  "triple (grows c s0) (gpt env role ct) (\<lambda>_. grows c s0) (grows c s0)"
  "triple (grows c s0) (send_message env c' b kb) (\<lambda>_. grows c s0) (grows c s0)"
  "triple (grows c s0) (answer_callback_query env q) (\<lambda>_. grows c s0) (grows c s0)"
  by (rule triple_gpt triple_send triple_answer; simp)+

lemma start_focus_grows:
  "triple (grows c s0) (start_focus env c') (\<lambda>_. grows c s0) (grows c s0)"
proof (rule start_focus_triple[where ?P1.0="grows c s0"])
  show "grows c s0 (snd (next_task c' s))" if "grows c s0 s" for s
    using that next_task_grows[of c s c'] by (rule grows_trans)
  show "triple (grows c s0) (send_message env c' MsgDayComplete None) (\<lambda>_. grows c s0) (grows c s0)"
    by (rule io_grows)
  show "triple (grows c s0)
        (andthen (gpt env (lit ''coach'') (lit ''Start focusing on: '' @ task_text t))
          (\<lambda>msg. andthen (send_message env c' (MsgText msg) (Some (build_keyboard (task_id t))))
            (\<lambda>_. create_reminder c' (task_id t)))) (\<lambda>_. grows c s0) (grows c s0)" for t
    by (intro triple_andthen_inv io_grows create_reminder_grows)
qed

lemma get_task_grows: "triple (grows c s0) (get_task c' tid) (\<lambda>_. grows c s0) (grows c s0)"
  by (rule tripleI) (auto simp: get_task_def split: option.splits)

lemma mark_done_grows: "triple (grows c s0) (mark_done c' tid) (\<lambda>_. grows c s0) (grows c s0)"
proof (rule tripleI)
  fix s x s' assume g: "grows c s0 s" and m: "mark_done c' tid s = (Ok x, s')"
  then obtain u where u: "users s c' = Some u"
    and us: "users s' = (users s)(c' \<mapsto> u\<lparr>tasks := mark_first tid (tasks u)\<rparr>)"
    by (auto simp: mark_done_def get_task_def Let_def split: option.splits if_splits)
  have "session_le u (u\<lparr>tasks := mark_first tid (tasks u)\<rparr>)"
    by (simp add: session_le_def mark_first_done)
  from grows_update[OF g u this] show "grows c s0 s'"
    by (subst grows_users_eq[where s=s']) (simp_all add: us)
next
  fix s e s' assume g: "grows c s0 s" and m: "mark_done c' tid s = (Raise e, s')"
  then have "s' = s"
    by (auto simp: mark_done_def get_task_def Let_def split: option.splits if_splits)
  with g show "grows c s0 s'" by simp
qed

lemma handle_callback_grows:
  "triple (grows c s0) (handle_callback env cq) (\<lambda>_. grows c s0) (grows c s0)"
proof (cases "split_colon (case cq_data cq of None \<Rightarrow> [] | Some d \<Rightarrow> d)")
  case None
  then show ?thesis
    by (simp add: handle_callback_def triple_def)
next
  case (Some p)
  obtain action tid where p: "p = (action, tid)" by (cases p)
  show ?thesis
    unfolding handle_callback_def Some p option.case prod.case
    by (intro triple_andthen_inv triple_if io_grows mark_done_grows start_focus_grows
        get_task_grows triple_return)
qed

lemma done_signal_grows:
  assumes "is_done_signal ev"
  shows "grows c s (step env s ev)"
proof -
  from assms obtain upd cq where ev: "ev = Webhook (Some upd)" and cq: "callback_query upd = Some cq"
    by (auto simp: is_done_signal_def split: event.splits option.splits)
  have "grows c s (snd (handle_callback env cq s))"
  proof (cases "handle_callback env cq s")
    case (Pair r s')
    show ?thesis
    proof (cases r)
      case (Ok x)
      with Pair tripleD_Ok[OF handle_callback_grows grows_refl] show ?thesis by simp
    next
      case (Raise e)
      with Pair tripleD_Raise[OF handle_callback_grows grows_refl] show ?thesis by simp
    qed
  qed
  with ev cq show ?thesis
    by (simp add: step_def telegram_webhook_def)
qed

lemma run_grows:
  assumes "\<forall>e\<in>set evs. is_done_signal e"
  shows "grows c s (run env evs s)"
  using assms
proof (induction evs arbitrary: s)
  case Nil
  then show ?case by (simp add: run_def)
next
  case (Cons e evs)
  from Cons.prems have "grows c s (step env s e)" by (simp add: done_signal_grows)
  moreover from Cons have "grows c (step env s e) (run env evs (step env s e))" by simp
  ultimately show ?case
    unfolding run_def by (simp add: grows_trans)
qed


lemma done_u: "is_done_signal (Webhook (Some (button_update 7 (lit ''done:'' @ [0x75]))))"
  by (simp add: is_done_signal_def button_update_def)

lemma advance_sample1:
  "advance [\<lparr>task_id = [0x75], task_text = a, task_prio = Top, task_done = True\<rparr>,
            \<lparr>task_id = [0x75, 0x75], task_text = b, task_prio = Mid, task_done = False\<rparr>] 0 = 1"
  by (simp add: advance.simps)

lemma run_done_u:
  "run calm_env [Webhook (Some (button_update 7 (lit ''done:'' @ [0x75])))] (sample_state False Pending)
    = \<lparr>users = [7 \<mapsto>
        \<lparr>tasks = [\<lparr>task_id = [0x75], task_text = lit ''Write report'', task_prio = Top,
                    task_done = True\<rparr>,
                  \<lparr>task_id = [0x75, 0x75], task_text = lit ''Call Bob'', task_prio = Mid,
                    task_done = False\<rparr>],
         pointer = 1, reminder = Some 1\<rparr>],
      timers = [\<lparr>t_chat = 7, t_task = [0x75], t_status = Cancelled\<rparr>,
                \<lparr>t_chat = 7, t_task = [0x75, 0x75], t_status = Pending\<rparr>],
      n_uuid = 2, n_io = 4,
      trace = [Answered (lit ''q''), CancelCall 7 0, Sent 7 MsgMarkedDone None,
               Generated (lit ''coach'') (lit ''Start focusing on: Call Bob''),
               Sent 7 (MsgText (lit ''Go!'')) (Some (build_keyboard [0x75, 0x75])),
               Armed 7 1 [0x75, 0x75]]\<rparr>"
  by (simp add: run_def step_def telegram_webhook_def button_update_def handle_callback_def
      andthen_def answer_callback_query_def calm_env_def emit_def mark_done_def get_task_def
      sample_state_def Let_def cancelled_def cancel_def send_message_def start_focus_def
      next_task_def advance_sample1 gpt_def strip_go create_reminder_def split_done)
    (simp add: lit_def)

text \<open>
  C2. In any state with a session for the chat, after any sequence of Done buttons (of any
  chat, for any task id, whatever the outside answers): the session is still there, its
  queue has the same length, its pointer has not moved back and no task has lost its done
  flag. \<open>next_task\<close> then only moves the pointer forward, over tasks that are done, and
  leaves the queue and the reminder handle alone; it returns the task at the new pointer,
  which is not done, or \<open>None\<close> when the pointer has reached the end of the queue. So the
  task returned is the first task at or after the stored pointer that is not done, and its
  index is never below a pointer reached earlier.
\<close>

theorem next_task_first_open:
  assumes "users s c = Some u" and "\<forall>e\<in>set evs. is_done_signal e"
  shows "\<exists>u' u''. users (run env evs s) c = Some u'
     \<and> users (snd (next_task c (run env evs s))) c = Some u''
     \<and> length (tasks u') = length (tasks u) \<and> pointer u \<le> pointer u'
     \<and> (\<forall>i<length (tasks u). task_done (tasks u ! i) \<longrightarrow> task_done (tasks u' ! i))
     \<and> tasks u'' = tasks u' \<and> reminder u'' = reminder u'
     \<and> pointer u' \<le> pointer u''
     \<and> (\<forall>i. pointer u' \<le> i \<and> i < pointer u'' \<longrightarrow> i < length (tasks u') \<and> task_done (tasks u' ! i))
     \<and> (case fst (next_task c (run env evs s)) of
          Some t \<Rightarrow> pointer u'' < length (tasks u') \<and> t = tasks u' ! pointer u'' \<and> \<not> task_done t
        | None \<Rightarrow> length (tasks u') \<le> pointer u'')"
proof -
  from run_grows[OF assms(2), of c s env] assms(1)
  obtain u' where u': "users (run env evs s) c = Some u'" and le: "session_le u u'"
    by (auto simp: grows_def split: option.splits)
  let ?p = "advance (tasks u') (pointer u')"
  let ?u = "u'\<lparr>pointer := ?p\<rparr>"
  have nt: "next_task c (run env evs s) =
      (if ?p < length (tasks u') then Some (tasks u' ! ?p) else None,
       (run env evs s)\<lparr>users := (users (run env evs s))(c \<mapsto> ?u)\<rparr>)"
    by (simp add: next_task_def u' Let_def)
  have skipped: "\<forall>i. pointer u' \<le> i \<and> i < pointer ?u \<longrightarrow>
      i < length (tasks u') \<and> task_done (tasks u' ! i)"
    using advance_skipped[of "pointer u'" _ "tasks u'"] by simp
  have res: "case fst (next_task c (run env evs s)) of
          Some t \<Rightarrow> pointer ?u < length (tasks u') \<and> t = tasks u' ! pointer ?u \<and> \<not> task_done t
        | None \<Rightarrow> length (tasks u') \<le> pointer ?u"
    using advance_open[of "tasks u'" "pointer u'"] by (simp add: nt)
  have u'': "users (snd (next_task c (run env evs s))) c = Some ?u"
    by (simp add: nt)
  from le have l1: "length (tasks u') = length (tasks u)" and l2: "pointer u \<le> pointer u'"
    and l3: "\<forall>i<length (tasks u). task_done (tasks u ! i) \<longrightarrow> task_done (tasks u' ! i)"
    by (simp_all add: session_le_def)
  have t: "tasks ?u = tasks u'" "reminder ?u = reminder u'" "pointer u' \<le> pointer ?u"
    by (simp_all add: advance_ge)
  from u' u'' l1 l2 l3 t skipped res show ?thesis
    by (intro exI[of _ u'] exI[of _ ?u] conjI)
qed

theorem next_task_first_open_witness:
  "\<exists>u' u''. users (run calm_env [Webhook (Some (button_update 7 (lit ''done:'' @ [0x75])))]
                 (sample_state False Pending)) 7 = Some u'
     \<and> users (snd (next_task 7 (run calm_env [Webhook (Some (button_update 7 (lit ''done:'' @ [0x75])))]
                 (sample_state False Pending)))) 7 = Some u''
     \<and> length (tasks u') = 2 \<and> pointer u' = 1 \<and> pointer u'' = 1
     \<and> tasks u'' = tasks u' \<and> reminder u'' = reminder u'
     \<and> fst (next_task 7 (run calm_env [Webhook (Some (button_update 7 (lit ''done:'' @ [0x75])))]
                 (sample_state False Pending)))
         = Some \<lparr>task_id = [0x75, 0x75], task_text = lit ''Call Bob'', task_prio = Mid,
                  task_done = False\<rparr>"
proof -
  have h: "\<forall>e\<in>set [Webhook (Some (button_update 7 (lit ''done:'' @ [0x75])))]. is_done_signal e"
    by (simp add: done_u)
  from next_task_first_open[OF sample_user[of False Pending] h, of calm_env]
  obtain u' u'' where
    1: "users (run calm_env [Webhook (Some (button_update 7 (lit ''done:'' @ [0x75])))]
                 (sample_state False Pending)) 7 = Some u'"
    and 2: "users (snd (next_task 7 (run calm_env [Webhook (Some (button_update 7 (lit ''done:'' @ [0x75])))]
                 (sample_state False Pending)))) 7 = Some u''"
    and 3: "tasks u'' = tasks u'" "reminder u'' = reminder u'" "pointer u' \<le> pointer u''"
    and 4: "case fst (next_task 7 (run calm_env [Webhook (Some (button_update 7 (lit ''done:'' @ [0x75])))]
                 (sample_state False Pending))) of
          Some t \<Rightarrow> pointer u'' < length (tasks u') \<and> t = tasks u' ! pointer u'' \<and> \<not> task_done t
        | None \<Rightarrow> length (tasks u') \<le> pointer u''"
    by blast
  from 1 have u': "u' = \<lparr>tasks = [\<lparr>task_id = [0x75], task_text = lit ''Write report'',
        task_prio = Top, task_done = True\<rparr>,
      \<lparr>task_id = [0x75, 0x75], task_text = lit ''Call Bob'', task_prio = Mid, task_done = False\<rparr>],
      pointer = 1, reminder = Some 1\<rparr>"
    by (simp add: run_done_u)
  have nt: "fst (next_task 7 (run calm_env [Webhook (Some (button_update 7 (lit ''done:'' @ [0x75])))]
                 (sample_state False Pending)))
         = Some \<lparr>task_id = [0x75, 0x75], task_text = lit ''Call Bob'', task_prio = Mid,
                  task_done = False\<rparr>"
    by (simp add: run_done_u next_task_def Let_def advance.simps)
  from 4 3 u' have "pointer u'' = 1"
    by (simp add: nt)
  with 1 2 3 u' nt show ?thesis
    by (intro exI[of _ u'] exI[of _ u''] conjI) simp_all
qed

section \<open>A done signal for the active task\<close>

lemma advance_eq:
  "p \<le> i \<Longrightarrow> i \<le> length ts \<Longrightarrow> (\<forall>j. p \<le> j \<and> j < i \<longrightarrow> task_done (ts ! j)) \<Longrightarrow>
     (i < length ts \<Longrightarrow> \<not> task_done (ts ! i)) \<Longrightarrow> advance ts p = i"
proof (induction ts p rule: advance.induct)
  case (1 ts p)
  show ?case
  proof (cases "p = i")
    case True
    with "1.prems"(2,4) show ?thesis by (auto intro: advance_stop)
  next
    case False
    with "1.prems" have c: "p < length ts \<and> task_done (ts ! p)" by auto
    then have "advance ts p = advance ts (Suc p)" by (simp add: advance_step)
    also have "advance ts (Suc p) = i"
    proof (rule "1.IH"[OF c])
      from False "1.prems"(1) show "Suc p \<le> i" by simp
      show "i \<le> length ts" by (rule "1.prems"(2))
      from "1.prems"(3) show "\<forall>j. Suc p \<le> j \<and> j < i \<longrightarrow> task_done (ts ! j)" by simp
      show "i < length ts \<Longrightarrow> \<not> task_done (ts ! i)" by (rule "1.prems"(4))
    qed
    finally show ?thesis .
  qed
qed

lemma advance_closed:
  assumes "p \<le> length ts"
  shows "advance ts p = p + length (takeWhile task_done (drop p ts))"
proof (rule advance_eq)
  let ?k = "length (takeWhile task_done (drop p ts))"
  have k: "?k \<le> length ts - p"
    using length_takeWhile_le[of task_done "drop p ts"] by simp
  show "p \<le> p + ?k" by simp
  from k assms show "p + ?k \<le> length ts" by simp
  show "\<forall>j. p \<le> j \<and> j < p + ?k \<longrightarrow> task_done (ts ! j)"
  proof (intro allI impI)
    fix j assume j: "p \<le> j \<and> j < p + ?k"
    then have "j - p < ?k" by auto
    then have "takeWhile task_done (drop p ts) ! (j - p) \<in> set (takeWhile task_done (drop p ts))"
      by (rule nth_mem)
    then have "task_done (takeWhile task_done (drop p ts) ! (j - p))"
      by (rule set_takeWhileD[THEN conjunct2])
    moreover from \<open>j - p < ?k\<close> have "takeWhile task_done (drop p ts) ! (j - p) = drop p ts ! (j - p)"
      by (rule takeWhile_nth)
    ultimately show "task_done (ts ! j)"
      using j k assms by simp
  qed
  show "\<not> task_done (ts ! (p + ?k))" if "p + ?k < length ts"
  proof -
    from that have "?k < length (drop p ts)" by simp
    then have "\<not> task_done (drop p ts ! ?k)" by (rule nth_length_takeWhile)
    with that show ?thesis by simp
  qed
qed

lemma find_open:
  "find (\<lambda>t. \<not> task_done t) xs =
     (if length (takeWhile task_done xs) < length xs
      then Some (xs ! length (takeWhile task_done xs)) else None)"
  by (induction xs) auto

lemma distinct_find:
  "distinct (map task_id ts) \<Longrightarrow> i < length ts \<Longrightarrow>
     find (\<lambda>t. task_id t = task_id (ts ! i)) ts = Some (ts ! i)
     \<and> mark_first (task_id (ts ! i)) ts = ts[i := (ts ! i)\<lparr>task_done := True\<rparr>]"
proof (induction ts arbitrary: i)
  case Nil
  then show ?case by simp
next
  case (Cons t ts)
  show ?case
  proof (cases i)
    case 0
    then show ?thesis by simp
  next
    case (Suc j)
    with Cons.prems have "ts ! j \<in> set ts" by simp
    then have "task_id (ts ! j) \<in> task_id ` set ts" by (rule imageI)
    with Cons.prems have "task_id (ts ! j) \<noteq> task_id t" by auto
    with Cons Suc show ?thesis by auto
  qed
qed

lemma advance_after_done:
  assumes i: "i < length ts" and p: "p \<le> i"
    and before: "\<forall>j. p \<le> j \<and> j < i \<longrightarrow> task_done (ts ! j)"
  shows "advance (ts[i := (ts ! i)\<lparr>task_done := True\<rparr>]) p
           = Suc i + length (takeWhile task_done (drop (Suc i) ts))"
proof -
  let ?ts = "ts[i := (ts ! i)\<lparr>task_done := True\<rparr>]"
  let ?q = "Suc i + length (takeWhile task_done (drop (Suc i) ts))"
  from i have si: "Suc i \<le> length ts" by simp
  have q: "advance ts (Suc i) = ?q" using si by (rule advance_closed)
  have qle: "?q \<le> length ts"
    using length_takeWhile_le[of task_done "drop (Suc i) ts"] si by simp
  show ?thesis
  proof (rule advance_eq)
    from p show "p \<le> ?q" by simp
    from qle show "?q \<le> length ?ts" by simp
    show "\<forall>j. p \<le> j \<and> j < ?q \<longrightarrow> task_done (?ts ! j)"
    proof (intro allI impI)
      fix j assume j: "p \<le> j \<and> j < ?q"
      consider "j < i" | "j = i" | "Suc i \<le> j" by linarith
      then show "task_done (?ts ! j)"
      proof cases
        case 1
        with before j i show ?thesis by simp
      next
        case 2
        with i show ?thesis by simp
      next
        case 3
        with j q have "j < advance ts (Suc i)" by simp
        from advance_skipped[OF 3 this] 3 show ?thesis by simp
      qed
    qed
    show "\<not> task_done (?ts ! ?q)" if "?q < length ?ts"
    proof -
      from that q have "advance ts (Suc i) < length ts" by simp
      then have "\<not> task_done (ts ! advance ts (Suc i))" by (rule advance_open)
      then show ?thesis by (simp add: q)
    qed
  qed
qed


lemma mark_done_active:
  assumes u: "users s c = Some u" and i: "i < length (tasks u)"
    and d: "distinct (map task_id (tasks u))"
  shows "mark_done c (task_id (tasks u ! i)) s =
     (Ok (), (case reminder u of
                None \<Rightarrow> s\<lparr>users := (users s)(c \<mapsto> u\<lparr>tasks := (tasks u)[i := (tasks u ! i)\<lparr>task_done := True\<rparr>]\<rparr>)\<rparr>
              | Some h \<Rightarrow>
                  if cancelled h s
                  then s\<lparr>users := (users s)(c \<mapsto> u\<lparr>tasks := (tasks u)[i := (tasks u ! i)\<lparr>task_done := True\<rparr>]\<rparr>)\<rparr>
                  else cancel c h
                    (s\<lparr>users := (users s)(c \<mapsto> u\<lparr>tasks := (tasks u)[i := (tasks u ! i)\<lparr>task_done := True\<rparr>]\<rparr>)\<rparr>)))"
  using distinct_find[OF d i] u
  by (simp add: mark_done_def get_task_def Let_def cancelled_def split: option.splits)

lemma start_focus_next:
  assumes u: "users s c = Some u" and q: "advance (tasks u) (pointer u) = q"
    and lt: "q < length (tasks u)" and g: "io env (n_io s) = Some r"
    and m: "io env (Suc (n_io s)) = Some r'"
  shows "start_focus env c s =
     (Ok (), s\<lparr>users := (users s)(c \<mapsto> u\<lparr>pointer := q, reminder := Some (length (timers s))\<rparr>),
               timers := timers s @ [\<lparr>t_chat = c, t_task = task_id (tasks u ! q), t_status = Pending\<rparr>],
               n_io := Suc (Suc (n_io s)),
               trace := trace s @
                 [Generated (lit ''coach'') (lit ''Start focusing on: '' @ task_text (tasks u ! q)),
                  Sent c (MsgText (strip r)) (Some (build_keyboard (task_id (tasks u ! q)))),
                  Armed c (length (timers s)) (task_id (tasks u ! q))]\<rparr>)"
  using assms
  by (simp add: start_focus_def next_task_def Let_def andthen_def gpt_def send_message_def emit_def
      create_reminder_def)

lemma start_focus_none:
  assumes u: "users s c = Some u" and q: "advance (tasks u) (pointer u) = q"
    and lt: "\<not> q < length (tasks u)" and g: "io env (n_io s) = Some r"
  shows "start_focus env c s =
     (Ok (), s\<lparr>users := (users s)(c \<mapsto> u\<lparr>pointer := q\<rparr>),
               n_io := Suc (n_io s),
               trace := trace s @ [Sent c MsgDayComplete None]\<rparr>)"
  using assms
  by (simp add: start_focus_def next_task_def Let_def send_message_def emit_def)


lemma done_signal_steps:
  assumes u: "users s c = Some u"
    and i: "i < length (tasks u)" and T: "tasks u ! i = T" and nd: "\<not> task_done T"
    and p: "pointer u \<le> i"
    and before: "\<forall>j. pointer u \<le> j \<and> j < i \<longrightarrow> task_done (tasks u ! j)"
    and d: "distinct (map task_id (tasks u))"
    and cq: "callback_query upd = Some cq" "cq_from cq = c"
      "cq_data cq = Some (lit ''done:'' @ task_id T)"
    and io: "\<forall>n. io env n \<noteq> None"
  shows "\<exists>s' u' r. telegram_webhook env (Some upd) s = (Ok ok_true, s')
     \<and> users s' c = Some u' \<and> io env (n_io s + 2) = Some r
     \<and> tasks u' = (tasks u)[i := T\<lparr>task_done := True\<rparr>]
     \<and> pointer u' = Suc i + length (takeWhile task_done (drop (Suc i) (tasks u)))
     \<and> (\<forall>h. reminder u = Some h \<and> h < length (timers s) \<longrightarrow> t_status (timers s' ! h) \<noteq> Pending)
     \<and> (case find (\<lambda>t. \<not> task_done t) (drop (Suc i) (tasks u)) of
          Some N \<Rightarrow>
            reminder u' = Some (length (timers s))
            \<and> length (timers s') = Suc (length (timers s))
            \<and> timers s' ! length (timers s) = \<lparr>t_chat = c, t_task = task_id N, t_status = Pending\<rparr>
            \<and> trace s' = trace s @ Answered (cq_id cq)
                 # (case reminder u of None \<Rightarrow> []
                    | Some h \<Rightarrow> if cancelled h s then [] else [CancelCall c h])
                 @ [Sent c MsgMarkedDone None,
                    Generated (lit ''coach'') (lit ''Start focusing on: '' @ task_text N),
                    Sent c (MsgText (strip r)) (Some (build_keyboard (task_id N))),
                    Armed c (length (timers s)) (task_id N)]
        | None \<Rightarrow>
            reminder u' = reminder u
            \<and> length (timers s') = length (timers s)
            \<and> trace s' = trace s @ Answered (cq_id cq)
                 # (case reminder u of None \<Rightarrow> []
                    | Some h \<Rightarrow> if cancelled h s then [] else [CancelCall c h])
                 @ [Sent c MsgMarkedDone None, Sent c MsgDayComplete None])"
proof -
  from io_total[OF io] obtain f where f: "\<And>n. io env n = Some (f n)" by blast
  let ?n = "n_io s"
  let ?ts = "(tasks u)[i := T\<lparr>task_done := True\<rparr>]"
  let ?canc = "case reminder u of None \<Rightarrow> []
                    | Some h \<Rightarrow> if cancelled h s then [] else [CancelCall c h]"
  let ?q = "Suc i + length (takeWhile task_done (drop (Suc i) (tasks u)))"
  define s1 where "s1 = s\<lparr>n_io := Suc ?n, trace := trace s @ [Answered (cq_id cq)]\<rparr>"
  define s2 where "s2 = snd (mark_done c (task_id T) s1)"
  define s3 where "s3 = s2\<lparr>n_io := Suc (Suc ?n), trace := trace s2 @ [Sent c MsgMarkedDone None]\<rparr>"
  define u2 where "u2 = u\<lparr>tasks := ?ts\<rparr>"
  have ans: "answer_callback_query env (cq_id cq) s = (Ok (), s1)"
    by (simp add: answer_callback_query_def f emit_def s1_def)
  have u1: "users s1 c = Some u" by (simp add: s1_def u)
  note md = mark_done_active[OF u1 i d, unfolded T]
  have md_ok: "mark_done c (task_id T) s1 = (Ok (), s2)"
    unfolding s2_def md by simp
  have s2_users: "users s2 = (users s)(c \<mapsto> u2)"
    unfolding s2_def md by (simp add: s1_def u2_def split: option.splits)
  have s2_io: "n_io s2 = Suc ?n"
    unfolding s2_def md by (simp add: s1_def split: option.splits)
  have s2_trace: "trace s2 = trace s @ Answered (cq_id cq) # ?canc"
    unfolding s2_def md by (simp add: s1_def cancelled_def split: option.splits)
  have s2_len: "length (timers s2) = length (timers s)"
    unfolding s2_def md by (simp add: s1_def split: option.splits)
  have s2_status: "t_status (timers s2 ! h) \<noteq> Pending"
    if "reminder u = Some h" "h < length (timers s)" for h
    using that unfolding s2_def md
    by (auto simp: s1_def cancelled_def cancel_def emit_def)
  have snd3: "send_message env c MsgMarkedDone None s2 = (Ok (), s3)"
    by (simp add: send_message_def f emit_def s3_def s2_io)
  have u3: "users s3 c = Some u2" by (simp add: s3_def s2_users)
  have adv: "advance (tasks u2) (pointer u2) = ?q"
    using advance_after_done[OF i p before] by (simp add: u2_def T)
  have g3: "io env (n_io s3) = Some (f (?n + 2))" "io env (Suc (n_io s3)) = Some (f (?n + 3))"
    by (simp_all add: f s3_def numeral_3_eq_3)
  have hc: "handle_callback env cq s =
      andthen (start_focus env c) (\<lambda>_ s'. (Ok ok_true, s')) s3"
    by (simp add: handle_callback_def cq andthen_def ans md_ok snd3)
  have fo: "find (\<lambda>t. \<not> task_done t) (drop (Suc i) (tasks u)) =
      (if ?q < length (tasks u) then Some (tasks u ! ?q) else None)"
    using i by (auto simp add: find_open add.commute)
  show ?thesis
  proof (cases "?q < length (tasks u)")
    case True
    let ?N = "tasks u ! ?q"
    have N: "tasks u2 ! ?q = ?N" by (simp add: u2_def)
    from True have lt: "?q < length (tasks u2)" by (simp add: u2_def)
    define s4 where "s4 = s3\<lparr>users := (users s3)(c \<mapsto> u2\<lparr>pointer := ?q, reminder := Some (length (timers s3))\<rparr>),
               timers := timers s3 @ [\<lparr>t_chat = c, t_task = task_id ?N, t_status = Pending\<rparr>],
               n_io := Suc (Suc (n_io s3)),
               trace := trace s3 @
                 [Generated (lit ''coach'') (lit ''Start focusing on: '' @ task_text ?N),
                  Sent c (MsgText (strip (f (?n + 2)))) (Some (build_keyboard (task_id ?N))),
                  Armed c (length (timers s3)) (task_id ?N)]\<rparr>"
    have sf: "start_focus env c s3 = (Ok (), s4)"
      unfolding s4_def using start_focus_next[OF u3 adv lt g3, unfolded N] .
    have res: "telegram_webhook env (Some upd) s = (Ok ok_true, s4)"
      by (simp add: telegram_webhook_def cq hc andthen_def sf)
    have l3: "length (timers s3) = length (timers s)" "timers s3 = timers s2"
      by (simp_all add: s3_def s2_len)
    have st: "\<forall>h. reminder u = Some h \<and> h < length (timers s) \<longrightarrow> t_status (timers s4 ! h) \<noteq> Pending"
      using s2_status by (simp add: s4_def l3 nth_append s2_len)
    have tr: "trace s4 = trace s @ Answered (cq_id cq) # ?canc
                 @ [Sent c MsgMarkedDone None,
                    Generated (lit ''coach'') (lit ''Start focusing on: '' @ task_text ?N),
                    Sent c (MsgText (strip (f (?n + 2)))) (Some (build_keyboard (task_id ?N))),
                    Armed c (length (timers s)) (task_id ?N)]"
      by (simp add: s4_def s3_def s2_trace s2_len)
    let ?u4 = "u2\<lparr>pointer := ?q, reminder := Some (length (timers s3))\<rparr>"
    have us: "users s4 c = Some ?u4" by (simp add: s4_def)
    have r: "io env (n_io s + 2) = Some (f (?n + 2))" by (simp add: f)
    have tk: "tasks ?u4 = ?ts" by (simp add: u2_def)
    have pt: "pointer ?u4 = ?q" by simp
    have cs: "case find (\<lambda>t. \<not> task_done t) (drop (Suc i) (tasks u)) of
          Some N \<Rightarrow>
            reminder ?u4 = Some (length (timers s))
            \<and> length (timers s4) = Suc (length (timers s))
            \<and> timers s4 ! length (timers s) = \<lparr>t_chat = c, t_task = task_id N, t_status = Pending\<rparr>
            \<and> trace s4 = trace s @ Answered (cq_id cq) # ?canc
                 @ [Sent c MsgMarkedDone None,
                    Generated (lit ''coach'') (lit ''Start focusing on: '' @ task_text N),
                    Sent c (MsgText (strip (f (?n + 2)))) (Some (build_keyboard (task_id N))),
                    Armed c (length (timers s)) (task_id N)]
        | None \<Rightarrow>
            reminder ?u4 = reminder u
            \<and> length (timers s4) = length (timers s)
            \<and> trace s4 = trace s @ Answered (cq_id cq) # ?canc
                 @ [Sent c MsgMarkedDone None, Sent c MsgDayComplete None]"
      unfolding fo using True tr
      by (simp add: l3 s2_len) (simp add: s4_def l3 s2_len nth_append)
    from res us r tk pt st cs show ?thesis
      by (intro exI[of _ s4] exI[of _ ?u4] exI[of _ "f (?n + 2)"] conjI)
  next
    case False
    from False have lt: "\<not> ?q < length (tasks u2)" by (simp add: u2_def)
    define s4 where "s4 = s3\<lparr>users := (users s3)(c \<mapsto> u2\<lparr>pointer := ?q\<rparr>),
               n_io := Suc (n_io s3),
               trace := trace s3 @ [Sent c MsgDayComplete None]\<rparr>"
    have sf: "start_focus env c s3 = (Ok (), s4)"
      unfolding s4_def using start_focus_none[OF u3 adv lt g3(1)] .
    have res: "telegram_webhook env (Some upd) s = (Ok ok_true, s4)"
      by (simp add: telegram_webhook_def cq hc andthen_def sf)
    have l3: "length (timers s3) = length (timers s)" "timers s3 = timers s2"
      by (simp_all add: s3_def s2_len)
    have st: "\<forall>h. reminder u = Some h \<and> h < length (timers s) \<longrightarrow> t_status (timers s4 ! h) \<noteq> Pending"
      using s2_status by (simp add: s4_def l3)
    have tr: "trace s4 = trace s @ Answered (cq_id cq) # ?canc
                 @ [Sent c MsgMarkedDone None, Sent c MsgDayComplete None]"
      by (simp add: s4_def s3_def s2_trace)
    let ?u4 = "u2\<lparr>pointer := ?q\<rparr>"
    have us: "users s4 c = Some ?u4" by (simp add: s4_def)
    have r: "io env (n_io s + 2) = Some (f (?n + 2))" by (simp add: f)
    have tk: "tasks ?u4 = ?ts" by (simp add: u2_def)
    have pt: "pointer ?u4 = ?q" by simp
    have cs: "case find (\<lambda>t. \<not> task_done t) (drop (Suc i) (tasks u)) of
          Some N \<Rightarrow>
            reminder ?u4 = Some (length (timers s))
            \<and> length (timers s4) = Suc (length (timers s))
            \<and> timers s4 ! length (timers s) = \<lparr>t_chat = c, t_task = task_id N, t_status = Pending\<rparr>
            \<and> trace s4 = trace s @ Answered (cq_id cq) # ?canc
                 @ [Sent c MsgMarkedDone None,
                    Generated (lit ''coach'') (lit ''Start focusing on: '' @ task_text N),
                    Sent c (MsgText (strip (f (?n + 2)))) (Some (build_keyboard (task_id N))),
                    Armed c (length (timers s)) (task_id N)]
        | None \<Rightarrow>
            reminder ?u4 = reminder u
            \<and> length (timers s4) = length (timers s)
            \<and> trace s4 = trace s @ Answered (cq_id cq) # ?canc
                 @ [Sent c MsgMarkedDone None, Sent c MsgDayComplete None]"
      unfolding fo using False tr
      by (simp add: u2_def) (simp add: s4_def l3 s2_len)
    from res us r tk pt st cs show ?thesis
      by (intro exI[of _ s4] exI[of _ ?u4] exI[of _ "f (?n + 2)"] conjI)
  qed
qed


text \<open>
  C4 as stated fails: the handler has no \<open>try\<close>, so a request that raises ends the handling
  where it stands. When the confirmation cannot be sent, the task \<open>u\<close> of chat 7 is marked
  done and the reminder task is cancelled, but no coach text is requested and no reminder
  task is armed for the task \<open>uu\<close> that follows; when the text generation fails, the
  same holds after the confirmation and the pointer move.
\<close>

theorem done_signal_not_rearmed:
  "telegram_webhook (flaky_env 1) (Some (button_update 7 (lit ''done:'' @ [0x75])))
      (sample_state False Pending)
     = (Raise SendError,
        \<lparr>users = [7 \<mapsto>
           \<lparr>tasks = [\<lparr>task_id = [0x75], task_text = lit ''Write report'', task_prio = Top,
                       task_done = True\<rparr>,
                     \<lparr>task_id = [0x75, 0x75], task_text = lit ''Call Bob'', task_prio = Mid,
                       task_done = False\<rparr>],
            pointer = 0, reminder = Some 0\<rparr>],
         timers = [\<lparr>t_chat = 7, t_task = [0x75], t_status = Cancelled\<rparr>],
         n_uuid = 2, n_io = 2,
         trace = [Answered (lit ''q''), CancelCall 7 0]\<rparr>)
   \<and> telegram_webhook (flaky_env 2) (Some (button_update 7 (lit ''done:'' @ [0x75])))
      (sample_state False Pending)
     = (Raise GenerationError,
        \<lparr>users = [7 \<mapsto>
           \<lparr>tasks = [\<lparr>task_id = [0x75], task_text = lit ''Write report'', task_prio = Top,
                       task_done = True\<rparr>,
                     \<lparr>task_id = [0x75, 0x75], task_text = lit ''Call Bob'', task_prio = Mid,
                       task_done = False\<rparr>],
            pointer = 1, reminder = Some 0\<rparr>],
         timers = [\<lparr>t_chat = 7, t_task = [0x75], t_status = Cancelled\<rparr>],
         n_uuid = 2, n_io = 3,
         trace = [Answered (lit ''q''), CancelCall 7 0, Sent 7 MsgMarkedDone None]\<rparr>)"
  by (simp add: telegram_webhook_def button_update_def handle_callback_def
      andthen_def answer_callback_query_def flaky_env_def emit_def mark_done_def get_task_def
      sample_state_def Let_def cancelled_def cancel_def send_message_def start_focus_def
      next_task_def advance_sample1 gpt_def)

text \<open>
  C4, amended. Let \<open>T\<close> be the active task of a session, the first task at or after the
  pointer that is not done, let the ids of the queue be distinct, and let every request to
  the outside succeed. A Done button for \<open>T\<close> is then handled in one go and acknowledged:
  \<open>T\<close> is marked done, the reminder task of the session is no longer pending (\<open>cancel\<close>
  is called on it unless it is already cancelled), and the pointer moves past \<open>T\<close> and the
  done tasks behind it. If a task that is not done follows, \<open>N\<close> being the first, the
  handler requests a coach text for \<open>N\<close>, sends it with two buttons, Done with the data
  \<open>done:\<close> and Stuck with the data \<open>stuck:\<close>, each followed by the id of \<open>N\<close>, and arms
  a new reminder task for \<open>N\<close>, which becomes the session's handle. If none follows it
  sends the celebration, arms nothing and leaves the handle as it is.
\<close>

theorem done_signal_advances:
  assumes u: "users s c = Some u"
    and i: "i < length (tasks u)" and T: "tasks u ! i = T" and nd: "\<not> task_done T"
    and p: "pointer u \<le> i"
    and before: "\<forall>j. pointer u \<le> j \<and> j < i \<longrightarrow> task_done (tasks u ! j)"
    and d: "distinct (map task_id (tasks u))"
    and cq: "callback_query upd = Some cq" "cq_from cq = c"
      "cq_data cq = Some (lit ''done:'' @ task_id T)"
    and io: "\<forall>n. io env n \<noteq> None"
  shows "\<exists>s' u' r. telegram_webhook env (Some upd) s = (Ok ok_true, s')
     \<and> users s' c = Some u' \<and> io env (n_io s + 2) = Some r
     \<and> tasks u' = (tasks u)[i := T\<lparr>task_done := True\<rparr>]
     \<and> pointer u' = Suc i + length (takeWhile task_done (drop (Suc i) (tasks u)))
     \<and> (\<forall>h. reminder u = Some h \<and> h < length (timers s) \<longrightarrow> t_status (timers s' ! h) \<noteq> Pending)
     \<and> (case find (\<lambda>t. \<not> task_done t) (drop (Suc i) (tasks u)) of
          Some N \<Rightarrow>
            reminder u' = Some (length (timers s))
            \<and> length (timers s') = Suc (length (timers s))
            \<and> timers s' ! length (timers s) = \<lparr>t_chat = c, t_task = task_id N, t_status = Pending\<rparr>
            \<and> trace s' = trace s @ Answered (cq_id cq)
                 # (case reminder u of None \<Rightarrow> []
                    | Some h \<Rightarrow> if cancelled h s then [] else [CancelCall c h])
                 @ [Sent c MsgMarkedDone None,
                    Generated (lit ''coach'') (lit ''Start focusing on: '' @ task_text N),
                    Sent c (MsgText (strip r)) (Some [(LabelDone, lit ''done:'' @ task_id N),
                                                   (LabelStuck, lit ''stuck:'' @ task_id N)]),
                    Armed c (length (timers s)) (task_id N)]
        | None \<Rightarrow>
            reminder u' = reminder u
            \<and> length (timers s') = length (timers s)
            \<and> trace s' = trace s @ Answered (cq_id cq)
                 # (case reminder u of None \<Rightarrow> []
                    | Some h \<Rightarrow> if cancelled h s then [] else [CancelCall c h])
                 @ [Sent c MsgMarkedDone None, Sent c MsgDayComplete None])"
  using done_signal_steps[OF assms] unfolding build_keyboard_def .

theorem done_signal_advances_witness:
  "(\<exists>s' u'. telegram_webhook calm_env (Some (button_update 7 (lit ''done:'' @ [0x75])))
                (sample_state False Pending) = (Ok ok_true, s')
     \<and> users s' 7 = Some u'
     \<and> map task_done (tasks u') = [True, False] \<and> pointer u' = 1 \<and> reminder u' = Some 1
     \<and> t_status (timers s' ! 0) \<noteq> Pending
     \<and> timers s' ! 1 = \<lparr>t_chat = 7, t_task = [0x75, 0x75], t_status = Pending\<rparr>
     \<and> trace s' = [Answered (lit ''q''), CancelCall 7 0, Sent 7 MsgMarkedDone None,
           Generated (lit ''coach'') (lit ''Start focusing on: Call Bob''),
           Sent 7 (MsgText (lit ''Go!''))
             (Some [(LabelDone, lit ''done:uu''), (LabelStuck, lit ''stuck:uu'')]),
           Armed 7 1 [0x75, 0x75]])
   \<and> (\<exists>s' u'. telegram_webhook calm_env (Some (button_update 7 (lit ''done:'' @ [0x75, 0x75])))
                (sample_state True Pending) = (Ok ok_true, s')
     \<and> users s' 7 = Some u'
     \<and> map task_done (tasks u') = [True, True] \<and> pointer u' = 2 \<and> reminder u' = Some 0
     \<and> length (timers s') = 1 \<and> t_status (timers s' ! 0) \<noteq> Pending
     \<and> trace s' = [Answered (lit ''q''), CancelCall 7 0, Sent 7 MsgMarkedDone None,
           Sent 7 MsgDayComplete None])"
proof (rule conjI)
  show "\<exists>s' u'. telegram_webhook calm_env (Some (button_update 7 (lit ''done:'' @ [0x75])))
                (sample_state False Pending) = (Ok ok_true, s')
     \<and> users s' 7 = Some u'
     \<and> map task_done (tasks u') = [True, False] \<and> pointer u' = 1 \<and> reminder u' = Some 1
     \<and> t_status (timers s' ! 0) \<noteq> Pending
     \<and> timers s' ! 1 = \<lparr>t_chat = 7, t_task = [0x75, 0x75], t_status = Pending\<rparr>
     \<and> trace s' = [Answered (lit ''q''), CancelCall 7 0, Sent 7 MsgMarkedDone None,
           Generated (lit ''coach'') (lit ''Start focusing on: Call Bob''),
           Sent 7 (MsgText (lit ''Go!''))
             (Some [(LabelDone, lit ''done:uu''), (LabelStuck, lit ''stuck:uu'')]),
           Armed 7 1 [0x75, 0x75]]"
  proof -
  let ?u = "\<lparr>tasks = [\<lparr>task_id = [0x75], task_text = lit ''Write report'', task_prio = Top,
                      task_done = False\<rparr>,
                    \<lparr>task_id = [0x75, 0x75], task_text = lit ''Call Bob'', task_prio = Mid,
                      task_done = False\<rparr>],
            pointer = 0, reminder = Some 0\<rparr>"
  let ?T = "\<lparr>task_id = [0x75], task_text = lit ''Write report'', task_prio = Top,
                      task_done = False\<rparr>"
  let ?cq = "\<lparr>cq_id = lit ''q'', cq_data = Some (lit ''done:'' @ [0x75]), cq_from = 7\<rparr>"
  have h: "(0::nat) < length (tasks ?u)" "tasks ?u ! 0 = ?T" "\<not> task_done ?T"
    "pointer ?u \<le> 0" "\<forall>j. pointer ?u \<le> j \<and> j < 0 \<longrightarrow> task_done (tasks ?u ! j)"
    "distinct (map task_id (tasks ?u))"
    "callback_query (button_update 7 (lit ''done:'' @ [0x75])) = Some ?cq"
    "cq_from ?cq = 7" "cq_data ?cq = Some (lit ''done:'' @ task_id ?T)"
    "\<forall>n. io calm_env n \<noteq> None"
    by (simp_all add: button_update_def calm_env_def)
  from done_signal_advances[OF sample_user[of False Pending] h]
  obtain s' u' r where
    1: "telegram_webhook calm_env (Some (button_update 7 (lit ''done:'' @ [0x75])))
          (sample_state False Pending) = (Ok ok_true, s')"
    and 2: "users s' 7 = Some u'"
    and 3: "io calm_env (n_io (sample_state False Pending) + 2) = Some r"
    and 4: "tasks u' = (tasks ?u)[0 := ?T\<lparr>task_done := True\<rparr>]"
    and 5: "pointer u' = Suc 0 + length (takeWhile task_done (drop (Suc 0) (tasks ?u)))"
    and 6: "\<forall>h. reminder ?u = Some h \<and> h < length (timers (sample_state False Pending)) \<longrightarrow>
              t_status (timers s' ! h) \<noteq> Pending"
    and 7: "case find (\<lambda>t. \<not> task_done t) (drop (Suc 0) (tasks ?u)) of
          Some N \<Rightarrow>
            reminder u' = Some (length (timers (sample_state False Pending)))
            \<and> length (timers s') = Suc (length (timers (sample_state False Pending)))
            \<and> timers s' ! length (timers (sample_state False Pending))
                = \<lparr>t_chat = 7, t_task = task_id N, t_status = Pending\<rparr>
            \<and> trace s' = trace (sample_state False Pending) @ Answered (cq_id ?cq)
                 # (case reminder ?u of None \<Rightarrow> []
                    | Some h \<Rightarrow> if cancelled h (sample_state False Pending) then []
                                else [CancelCall 7 h])
                 @ [Sent 7 MsgMarkedDone None,
                    Generated (lit ''coach'') (lit ''Start focusing on: '' @ task_text N),
                    Sent 7 (MsgText (strip r)) (Some [(LabelDone, lit ''done:'' @ task_id N),
                                                   (LabelStuck, lit ''stuck:'' @ task_id N)]),
                    Armed 7 (length (timers (sample_state False Pending))) (task_id N)]
        | None \<Rightarrow>
            reminder u' = reminder ?u
            \<and> length (timers s') = length (timers (sample_state False Pending))
            \<and> trace s' = trace (sample_state False Pending) @ Answered (cq_id ?cq)
                 # (case reminder ?u of None \<Rightarrow> []
                    | Some h \<Rightarrow> if cancelled h (sample_state False Pending) then []
                                else [CancelCall 7 h])
                 @ [Sent 7 MsgMarkedDone None, Sent 7 MsgDayComplete None]"
    by blast
  from 3 have r: "r = lit ''Go!''" by (simp add: calm_env_def)
  from 6 have a6: "t_status (timers s' ! 0) \<noteq> Pending" by simp
  from 7 have a7: "reminder u' = Some 1"
    "timers s' ! 1 = \<lparr>t_chat = 7, t_task = [0x75, 0x75], t_status = Pending\<rparr>"
    "trace s' = [Answered (lit ''q''), CancelCall 7 0, Sent 7 MsgMarkedDone None,
           Generated (lit ''coach'') (lit ''Start focusing on: Call Bob''),
           Sent 7 (MsgText (lit ''Go!''))
             (Some [(LabelDone, lit ''done:uu''), (LabelStuck, lit ''stuck:uu'')]),
           Armed 7 1 [0x75, 0x75]]"
    by (simp_all add: r strip_go cancelled_def) (simp add: lit_def)
  from 1 2 4 5 a6 a7 show ?thesis
    by (intro exI[of _ s'] exI[of _ u'] conjI) simp_all
qed
  show "\<exists>s' u'. telegram_webhook calm_env (Some (button_update 7 (lit ''done:'' @ [0x75, 0x75])))
                (sample_state True Pending) = (Ok ok_true, s')
     \<and> users s' 7 = Some u'
     \<and> map task_done (tasks u') = [True, True] \<and> pointer u' = 2 \<and> reminder u' = Some 0
     \<and> length (timers s') = 1 \<and> t_status (timers s' ! 0) \<noteq> Pending
     \<and> trace s' = [Answered (lit ''q''), CancelCall 7 0, Sent 7 MsgMarkedDone None,
           Sent 7 MsgDayComplete None]"
  proof -
  let ?u = "\<lparr>tasks = [\<lparr>task_id = [0x75], task_text = lit ''Write report'', task_prio = Top,
                      task_done = True\<rparr>,
                    \<lparr>task_id = [0x75, 0x75], task_text = lit ''Call Bob'', task_prio = Mid,
                      task_done = False\<rparr>],
            pointer = 0, reminder = Some 0\<rparr>"
  let ?T = "\<lparr>task_id = [0x75, 0x75], task_text = lit ''Call Bob'', task_prio = Mid,
                      task_done = False\<rparr>"
  let ?cq = "\<lparr>cq_id = lit ''q'', cq_data = Some (lit ''done:'' @ [0x75, 0x75]), cq_from = 7\<rparr>"
  have h: "(1::nat) < length (tasks ?u)" "tasks ?u ! 1 = ?T" "\<not> task_done ?T"
    "pointer ?u \<le> 1" "\<forall>j. pointer ?u \<le> j \<and> j < 1 \<longrightarrow> task_done (tasks ?u ! j)"
    "distinct (map task_id (tasks ?u))"
    "callback_query (button_update 7 (lit ''done:'' @ [0x75, 0x75])) = Some ?cq"
    "cq_from ?cq = 7" "cq_data ?cq = Some (lit ''done:'' @ task_id ?T)"
    "\<forall>n. io calm_env n \<noteq> None"
    by (simp_all add: button_update_def calm_env_def)
  from done_signal_advances[OF sample_user[of True Pending] h]
  obtain s' u' r where
    1: "telegram_webhook calm_env (Some (button_update 7 (lit ''done:'' @ [0x75, 0x75])))
          (sample_state True Pending) = (Ok ok_true, s')"
    and 2: "users s' 7 = Some u'"
    and 4: "tasks u' = (tasks ?u)[1 := ?T\<lparr>task_done := True\<rparr>]"
    and 5: "pointer u' = Suc 1 + length (takeWhile task_done (drop (Suc 1) (tasks ?u)))"
    and 6: "\<forall>h. reminder ?u = Some h \<and> h < length (timers (sample_state True Pending)) \<longrightarrow>
              t_status (timers s' ! h) \<noteq> Pending"
    and 7: "case find (\<lambda>t. \<not> task_done t) (drop (Suc 1) (tasks ?u)) of
          Some N \<Rightarrow>
            reminder u' = Some (length (timers (sample_state True Pending)))
            \<and> length (timers s') = Suc (length (timers (sample_state True Pending)))
            \<and> timers s' ! length (timers (sample_state True Pending))
                = \<lparr>t_chat = 7, t_task = task_id N, t_status = Pending\<rparr>
            \<and> trace s' = trace (sample_state True Pending) @ Answered (cq_id ?cq)
                 # (case reminder ?u of None \<Rightarrow> []
                    | Some h \<Rightarrow> if cancelled h (sample_state True Pending) then []
                                else [CancelCall 7 h])
                 @ [Sent 7 MsgMarkedDone None,
                    Generated (lit ''coach'') (lit ''Start focusing on: '' @ task_text N),
                    Sent 7 (MsgText (strip r)) (Some [(LabelDone, lit ''done:'' @ task_id N),
                                                   (LabelStuck, lit ''stuck:'' @ task_id N)]),
                    Armed 7 (length (timers (sample_state True Pending))) (task_id N)]
        | None \<Rightarrow>
            reminder u' = reminder ?u
            \<and> length (timers s') = length (timers (sample_state True Pending))
            \<and> trace s' = trace (sample_state True Pending) @ Answered (cq_id ?cq)
                 # (case reminder ?u of None \<Rightarrow> []
                    | Some h \<Rightarrow> if cancelled h (sample_state True Pending) then []
                                else [CancelCall 7 h])
                 @ [Sent 7 MsgMarkedDone None, Sent 7 MsgDayComplete None]"
    by blast
  from 6 have a6: "t_status (timers s' ! 0) \<noteq> Pending" by simp
  from 7 have a7: "reminder u' = Some 0" "length (timers s') = 1"
    "trace s' = [Answered (lit ''q''), CancelCall 7 0, Sent 7 MsgMarkedDone None,
           Sent 7 MsgDayComplete None]"
    by (simp_all add: cancelled_def)
  from 1 2 4 5 a6 a7 show ?thesis
    by (intro exI[of _ s'] exI[of _ u'] conjI) simp_all
qed
qed

section \<open>At most one reminder task\<close>

lemma live_simps [simp]:
  "live c [] = {}"
  "live c (tr @ [e]) = track c (live c tr) e"
  by (simp_all add: live_def)

lemma count_simps [simp]:
  "arms c [] = 0" "cancels c [] = 0"
  "arms c (tr @ [e]) = arms c tr + (if is_arm c e then 1 else 0)"
  "cancels c (tr @ [e]) = cancels c tr + (if is_cancel c e then 1 else 0)"
  by (simp_all add: arms_def cancels_def)

lemma finite_live [simp]: "finite (live c tr)"
  by (induction tr rule: rev_induct) (auto simp: track_def split: effect.splits)

lemma hist_ok_Nil [simp]: "hist_ok c []"
  by (simp add: hist_ok_def)

lemma hist_ok_last: "hist_ok c tr \<Longrightarrow> card (live c tr) \<le> 1 \<and> arms c tr \<le> cancels c tr + 1"
  unfolding hist_ok_def by (drule spec[of _ "length tr"]) simp

lemma hist_ok_snoc:
  "hist_ok c (tr @ [e]) \<longleftrightarrow>
     hist_ok c tr \<and> card (live c (tr @ [e])) \<le> 1 \<and> arms c (tr @ [e]) \<le> cancels c (tr @ [e]) + 1
     \<and> (\<forall>h t. e = Armed c h t \<longrightarrow> live c tr = {})"
proof
  assume a: "hist_ok c (tr @ [e])"
  have "hist_ok c tr"
    unfolding hist_ok_def
  proof (intro allI conjI impI)
    fix n
    have t: "take (min n (length tr)) (tr @ [e]) = take n tr"
      by (cases "n \<le> length tr") (simp_all add: min_def)
    from a[unfolded hist_ok_def, rule_format, of "min n (length tr)"]
    show "card (live c (take n tr)) \<le> 1" "arms c (take n tr) \<le> cancels c (take n tr) + 1"
      unfolding t by simp_all
    fix h t assume n: "n < length tr \<and> tr ! n = Armed c h t"
    then have "n < length (tr @ [e]) \<and> (tr @ [e]) ! n = Armed c h t"
      by (simp add: nth_append)
    with a[unfolded hist_ok_def, rule_format, of n] n show "live c (take n tr) = {}"
      by simp
  qed
  moreover from hist_ok_last[OF a]
  have "card (live c (tr @ [e])) \<le> 1" "arms c (tr @ [e]) \<le> cancels c (tr @ [e]) + 1"
    by simp_all
  moreover have "\<forall>h t. e = Armed c h t \<longrightarrow> live c tr = {}"
    using a[unfolded hist_ok_def, rule_format, of "length tr"] by simp
  ultimately show "hist_ok c tr \<and> card (live c (tr @ [e])) \<le> 1
     \<and> arms c (tr @ [e]) \<le> cancels c (tr @ [e]) + 1
     \<and> (\<forall>h t. e = Armed c h t \<longrightarrow> live c tr = {})"
    by blast
next
  assume a: "hist_ok c tr \<and> card (live c (tr @ [e])) \<le> 1
     \<and> arms c (tr @ [e]) \<le> cancels c (tr @ [e]) + 1
     \<and> (\<forall>h t. e = Armed c h t \<longrightarrow> live c tr = {})"
  show "hist_ok c (tr @ [e])"
    unfolding hist_ok_def
  proof (intro allI)
    fix n
    show "card (live c (take n (tr @ [e]))) \<le> 1
          \<and> arms c (take n (tr @ [e])) \<le> cancels c (take n (tr @ [e])) + 1
          \<and> (\<forall>h t. n < length (tr @ [e]) \<and> (tr @ [e]) ! n = Armed c h t
                \<longrightarrow> live c (take n (tr @ [e])) = {})"
    proof (cases "n \<le> length tr")
      case True
      then have t: "take n (tr @ [e]) = take n tr" by simp
      from a have h: "hist_ok c tr" by simp
      show ?thesis
      proof (cases "n = length tr")
        case True
        with a hist_ok_last[OF h] show ?thesis by (auto simp: nth_append)
      next
        case False
        with True have "n < length tr" by simp
        with h[unfolded hist_ok_def, rule_format, of n] show ?thesis
          unfolding t by (auto simp: nth_append)
      qed
    next
      case False
      then have "take n (tr @ [e]) = tr @ [e]" by simp
      with a False show ?thesis by simp
    qed
  qed
qed


lemma pending_frame [simp]:
  "pending (s\<lparr>n_io := k\<rparr>) = pending s"
  "pending (s\<lparr>trace := tr\<rparr>) = pending s"
  "pending (s\<lparr>users := us\<rparr>) = pending s"
  "pending (s\<lparr>n_uuid := m\<rparr>) = pending s"
  by (simp_all add: pending_def fun_eq_iff)

lemma timer_free_simps [simp]:
  "timer_free e \<Longrightarrow> track c L e = L"
  "timer_free e \<Longrightarrow> \<not> is_arm c e"
  "timer_free e \<Longrightarrow> \<not> is_cancel c e"
  "timer_free (Generated r ct)" "timer_free (Sent c' b kb)" "timer_free (Answered q)"
  by (auto simp: timer_free_def track_def is_arm_def is_cancel_def split: effect.splits)

lemma hist_ok_free: "timer_free e \<Longrightarrow> hist_ok c (tr @ [e]) = hist_ok c tr"
  using hist_ok_last[of c tr]
  by (auto simp: hist_ok_snoc timer_free_def split: effect.splits)

lemma inv_io [simp]: "inv (s\<lparr>n_io := k\<rparr>) = inv s"
  by (simp add: inv_def inv_live_def inv_hist_def inv_owner_def inv_handle_def inv_count_def)

lemma quiet_io [simp]: "quiet c (s\<lparr>n_io := k\<rparr>) = quiet c s"
  by (simp add: quiet_def)

lemma inv_emit_free: "timer_free e \<Longrightarrow> inv (emit e s) = inv s"
  by (simp add: emit_def inv_def inv_live_def inv_hist_def inv_owner_def inv_handle_def
      inv_count_def hist_ok_free)

lemma quiet_emit_free: "timer_free e \<Longrightarrow> quiet c (emit e s) = quiet c s"
  by (simp add: emit_def quiet_def)

lemma inv_init: "inv init_state"
  by (simp add: init_state_def inv_def inv_live_def inv_hist_def inv_owner_def inv_handle_def
      inv_count_def pending_def)

lemma inv_owner_users:
  assumes "inv_owner s" and "users s c = Some u" and "reminder u' = reminder u"
  shows "inv_owner (s\<lparr>users := (users s)(c \<mapsto> u')\<rparr>)"
  unfolding inv_owner_def
proof (intro allI impI)
  fix c' h assume "h \<in> pending (s\<lparr>users := (users s)(c \<mapsto> u')\<rparr>) c'"
  then have "h \<in> pending s c'" by simp
  with assms(1) obtain v where v: "users s c' = Some v" "reminder v = Some h"
    unfolding inv_owner_def by blast
  show "\<exists>w. users (s\<lparr>users := (users s)(c \<mapsto> u')\<rparr>) c' = Some w \<and> reminder w = Some h"
  proof (cases "c' = c")
    case True
    with v assms(2,3) show ?thesis by simp
  next
    case False
    with v show ?thesis by simp
  qed
qed

lemma inv_handle_users:
  assumes "inv_handle s" and "users s c = Some u" and "reminder u' = reminder u"
  shows "inv_handle (s\<lparr>users := (users s)(c \<mapsto> u')\<rparr>)"
  unfolding inv_handle_def
proof (intro allI impI)
  fix c' v h
  assume a: "users (s\<lparr>users := (users s)(c \<mapsto> u')\<rparr>) c' = Some v" and r: "reminder v = Some h"
  have "\<exists>w. users s c' = Some w \<and> reminder w = Some h"
  proof (cases "c' = c")
    case True
    with a r assms(2,3) show ?thesis by simp
  next
    case False
    with a r show ?thesis by simp
  qed
  with assms(1) show "h < length (timers (s\<lparr>users := (users s)(c \<mapsto> u')\<rparr>))
      \<and> t_chat (timers (s\<lparr>users := (users s)(c \<mapsto> u')\<rparr>) ! h) = c'"
    unfolding inv_handle_def by auto
qed

lemma inv_count_users:
  assumes "inv_count s" and "users s c = Some u" and "reminder u' = reminder u"
  shows "inv_count (s\<lparr>users := (users s)(c \<mapsto> u')\<rparr>)"
  unfolding inv_count_def
proof (intro allI)
  fix c'
  from assms(1) consider "arms c' (trace s) \<le> cancels c' (trace s)"
    | v h where "users s c' = Some v" "reminder v = Some h" "t_status (timers s ! h) \<noteq> Cancelled"
    unfolding inv_count_def by blast
  then show "arms c' (trace (s\<lparr>users := (users s)(c \<mapsto> u')\<rparr>))
        \<le> cancels c' (trace (s\<lparr>users := (users s)(c \<mapsto> u')\<rparr>))
      \<or> (\<exists>w h. users (s\<lparr>users := (users s)(c \<mapsto> u')\<rparr>) c' = Some w \<and> reminder w = Some h
            \<and> t_status (timers (s\<lparr>users := (users s)(c \<mapsto> u')\<rparr>) ! h) \<noteq> Cancelled)"
  proof cases
    case 1
    then show ?thesis by simp
  next
    case 2
    show ?thesis
    proof (cases "c' = c")
      case True
      with 2 assms(2,3) show ?thesis by simp
    next
      case False
      with 2 show ?thesis by simp
    qed
  qed
qed

lemma inv_users:
  assumes "inv s" and "users s c = Some u" and "reminder u' = reminder u"
  shows "inv (s\<lparr>users := (users s)(c \<mapsto> u')\<rparr>)"
  using assms inv_owner_users[of s c u u'] inv_handle_users[of s c u u'] inv_count_users[of s c u u']
  by (simp add: inv_def inv_live_def inv_hist_def)

lemma quiet_users [simp]: "quiet c (s\<lparr>users := us\<rparr>) = quiet c s"
  by (simp add: quiet_def)


lemma inv_uuid [simp]: "inv (s\<lparr>n_uuid := k\<rparr>) = inv s"
  by (simp add: inv_def inv_live_def inv_hist_def inv_owner_def inv_handle_def inv_count_def)

lemma quiet_uuid [simp]: "quiet c (s\<lparr>n_uuid := k\<rparr>) = quiet c s"
  by (simp add: quiet_def)

lemma pending_cancel: "pending (cancel c h s) c' = pending s c' - {h}"
  by (auto simp: cancel_def emit_def pending_def nth_list_update)

lemma pending_owner:
  assumes "inv s" and "users s c = Some u"
  shows "pending s c \<subseteq> (case reminder u of None \<Rightarrow> {} | Some h \<Rightarrow> {h})"
proof
  fix h assume "h \<in> pending s c"
  with assms(1) obtain v where "users s c = Some v" "reminder v = Some h"
    unfolding inv_def inv_owner_def by blast
  with assms(2) show "h \<in> (case reminder u of None \<Rightarrow> {} | Some h \<Rightarrow> {h})" by simp
qed

lemma quiet_of_none:
  assumes "inv s" and "users s c = Some u" and "reminder u = None"
  shows "quiet c s"
proof -
  from pending_owner[OF assms(1,2)] assms(3) have "pending s c = {}" by simp
  moreover from assms have "arms c (trace s) \<le> cancels c (trace s)"
    unfolding inv_def inv_count_def by (metis option.distinct(1) option.inject)
  ultimately show ?thesis by (simp add: quiet_def)
qed

lemma quiet_of_cancelled:
  assumes "inv s" and "users s c = Some u" and "reminder u = Some h" and "cancelled h s"
  shows "quiet c s"
proof -
  from assms(4) have st: "t_status (timers s ! h) = Cancelled" by (simp add: cancelled_def)
  then have "h \<notin> pending s c" by (simp add: pending_def)
  with pending_owner[OF assms(1,2)] assms(3) have "pending s c = {}" by auto
  moreover from assms(1,2,3) st have "arms c (trace s) \<le> cancels c (trace s)"
    unfolding inv_def inv_count_def by (metis option.inject)
  ultimately show ?thesis by (simp add: quiet_def)
qed

lemma inv_cancel:
  assumes i: "inv s" and u: "users s c = Some u" and r: "reminder u = Some h"
  shows "inv (cancel c h s) \<and> quiet c (cancel c h s)"
proof -
  let ?s = "cancel c h s"
  from i u r have hl: "h < length (timers s)" and hc: "t_chat (timers s ! h) = c"
    unfolding inv_def inv_handle_def by blast+
  have tr: "trace ?s = trace s @ [CancelCall c h]" by simp
  have lv: "live c' (trace ?s) = live c' (trace s) - {h}" for c'
    by (simp add: track_def)
  have chat: "t_chat (timers ?s ! k) = t_chat (timers s ! k)" for k
    by (cases "k = h") (auto simp: cancel_def emit_def nth_list_update)
  have stat: "t_status (timers ?s ! k) = t_status (timers s ! k)" if "k \<noteq> h" for k
    using that by (auto simp: cancel_def emit_def)
  have len: "length (timers ?s) = length (timers s)" by simp
  from i have il: "\<And>c'. live c' (trace s) = pending s c'" and ih: "\<And>c'. hist_ok c' (trace s)"
    unfolding inv_def inv_live_def inv_hist_def by blast+
  have 1: "inv_live ?s"
    unfolding inv_live_def by (simp only: lv pending_cancel il) simp
  have 2: "inv_hist ?s"
    unfolding inv_hist_def
  proof
    fix c'
    have "card (live c' (trace s) - {h}) \<le> card (live c' (trace s))"
      by (rule card_mono) auto
    with hist_ok_last[OF ih[of c']] ih[of c'] show "hist_ok c' (trace ?s)"
      unfolding tr hist_ok_snoc by (auto simp: track_def is_arm_def is_cancel_def)
  qed
  have 3: "inv_owner ?s"
    using i unfolding inv_def inv_owner_def by (simp add: pending_cancel)
  have 4: "inv_handle ?s"
    using i unfolding inv_def inv_handle_def by (simp add: chat)
  have ac: "arms c (trace ?s) \<le> cancels c (trace ?s)"
    using hist_ok_last[OF ih[of c]] by (simp add: is_arm_def is_cancel_def)
  have 5: "inv_count ?s"
    unfolding inv_count_def
  proof
    fix c'
    show "arms c' (trace ?s) \<le> cancels c' (trace ?s)
        \<or> (\<exists>u h. users ?s c' = Some u \<and> reminder u = Some h
               \<and> t_status (timers ?s ! h) \<noteq> Cancelled)"
    proof (cases "c' = c")
      case True
      with ac show ?thesis by simp
    next
      case False
      from i consider "arms c' (trace s) \<le> cancels c' (trace s)"
        | v k where "users s c' = Some v" "reminder v = Some k" "t_status (timers s ! k) \<noteq> Cancelled"
        unfolding inv_def inv_count_def by blast
      then show ?thesis
      proof cases
        case 1
        with False show ?thesis by (simp add: is_arm_def is_cancel_def)
      next
        case 2
        with i have "t_chat (timers s ! k) = c'" unfolding inv_def inv_handle_def by blast
        with hc False have "k \<noteq> h" by auto
        with 2 stat[of k] show ?thesis by auto
      qed
    qed
  qed
  from pending_owner[OF i u] r have "pending s c \<subseteq> {h}" by simp
  then have "pending ?s c = {}" by (auto simp: pending_cancel)
  with ac have "quiet c ?s" by (simp add: quiet_def)
  with 1 2 3 4 5 show ?thesis by (simp add: inv_def)
qed


lemma inv_create:
  assumes i: "inv s" and q: "quiet c s" and u: "users s c = Some u"
  shows "inv (emit (Armed c (length (timers s)) tid)
           (s\<lparr>timers := timers s @ [\<lparr>t_chat = c, t_task = tid, t_status = Pending\<rparr>],
              users := (users s)(c \<mapsto> u\<lparr>reminder := Some (length (timers s))\<rparr>)\<rparr>))"
    (is "inv ?s")
proof -
  let ?h = "length (timers s)"
  have tr: "trace ?s = trace s @ [Armed c ?h tid]" by (simp add: emit_def)
  have tm: "timers ?s = timers s @ [\<lparr>t_chat = c, t_task = tid, t_status = Pending\<rparr>]"
    by (simp add: emit_def)
  have us: "users ?s = (users s)(c \<mapsto> u\<lparr>reminder := Some ?h\<rparr>)" by (simp add: emit_def)
  have pd: "pending ?s c' = pending s c' \<union> (if c' = c then {?h} else {})" for c'
    by (auto simp: pending_def tm nth_append less_Suc_eq)
  from i have il: "\<And>c'. live c' (trace s) = pending s c'" and ih: "\<And>c'. hist_ok c' (trace s)"
    unfolding inv_def inv_live_def inv_hist_def by blast+
  from q have pc: "pending s c = {}" and ac: "arms c (trace s) \<le> cancels c (trace s)"
    by (simp_all add: quiet_def)
  have 1: "inv_live ?s"
    unfolding inv_live_def by (auto simp: tr pd il track_def)
  have 2: "inv_hist ?s"
    unfolding inv_hist_def
  proof
    fix c'
    show "hist_ok c' (trace ?s)"
    proof (cases "c' = c")
      case True
      with ih[of c] pc ac il[of c] show ?thesis
        unfolding tr hist_ok_snoc by (simp add: track_def is_arm_def is_cancel_def)
    next
      case False
      with ih[of c'] hist_ok_last[OF ih[of c']] show ?thesis
        unfolding tr hist_ok_snoc by (simp add: track_def is_arm_def is_cancel_def)
    qed
  qed
  have 3: "inv_owner ?s"
    unfolding inv_owner_def
  proof (intro allI impI)
    fix c' h assume h: "h \<in> pending ?s c'"
    show "\<exists>u. users ?s c' = Some u \<and> reminder u = Some h"
    proof (cases "c' = c")
      case True
      with h pc have "h = ?h" by (simp add: pd)
      with True show ?thesis by (simp add: us)
    next
      case False
      with h have "h \<in> pending s c'" by (simp add: pd)
      with i False show ?thesis unfolding inv_def inv_owner_def by (simp add: us)
    qed
  qed
  have 4: "inv_handle ?s"
    unfolding inv_handle_def
  proof (intro allI impI)
    fix c' v h assume v: "users ?s c' = Some v" and r: "reminder v = Some h"
    show "h < length (timers ?s) \<and> t_chat (timers ?s ! h) = c'"
    proof (cases "c' = c")
      case True
      with v r have "h = ?h" by (auto simp: us)
      with True show ?thesis by (simp add: tm)
    next
      case False
      with v have "users s c' = Some v" by (simp add: us)
      with i r have "h < length (timers s) \<and> t_chat (timers s ! h) = c'"
        unfolding inv_def inv_handle_def by blast
      then show ?thesis by (simp add: tm nth_append)
    qed
  qed
  have 5: "inv_count ?s"
    unfolding inv_count_def
  proof
    fix c'
    show "arms c' (trace ?s) \<le> cancels c' (trace ?s)
        \<or> (\<exists>u h. users ?s c' = Some u \<and> reminder u = Some h
               \<and> t_status (timers ?s ! h) \<noteq> Cancelled)"
    proof (cases "c' = c")
      case True
      then show ?thesis by (simp add: us tm)
    next
      case False
      from i consider "arms c' (trace s) \<le> cancels c' (trace s)"
        | v k where "users s c' = Some v" "reminder v = Some k" "t_status (timers s ! k) \<noteq> Cancelled"
        unfolding inv_def inv_count_def by blast
      then show ?thesis
      proof cases
        case 1
        with False show ?thesis by (simp add: tr is_arm_def is_cancel_def)
      next
        case 2
        with i have "k < length (timers s)" unfolding inv_def inv_handle_def by blast
        with 2 False show ?thesis by (auto simp: us tm nth_append)
      qed
    qed
  qed
  from 1 2 3 4 5 show ?thesis by (simp add: inv_def)
qed

lemma inv_exit:
  assumes i: "inv s" and hl: "h < length (timers s)" and st: "st \<noteq> Pending" "st \<noteq> Cancelled"
    and was: "t_status (timers s ! h) = Pending"
  shows "inv (emit (Exited h) (set_status h st s))" (is "inv ?s")
proof -
  have tr: "trace ?s = trace s @ [Exited h]" by (simp add: emit_def set_status_def)
  have tm: "timers ?s = (timers s)[h := (timers s ! h)\<lparr>t_status := st\<rparr>]"
    by (simp add: emit_def set_status_def)
  have us: "users ?s = users s" by (simp add: emit_def set_status_def)
  have pd: "pending ?s c' = pending s c' - {h}" for c'
    using st hl by (auto simp: pending_def tm nth_list_update split: if_splits)
  from i have il: "\<And>c'. live c' (trace s) = pending s c'" and ih: "\<And>c'. hist_ok c' (trace s)"
    unfolding inv_def inv_live_def inv_hist_def by blast+
  have 1: "inv_live ?s"
    unfolding inv_live_def by (auto simp: tr pd il track_def)
  have 2: "inv_hist ?s"
    unfolding inv_hist_def
  proof
    fix c'
    have "card (live c' (trace s) - {h}) \<le> card (live c' (trace s))"
      by (rule card_mono) auto
    with hist_ok_last[OF ih[of c']] ih[of c'] show "hist_ok c' (trace ?s)"
      unfolding tr hist_ok_snoc by (auto simp: track_def is_arm_def is_cancel_def)
  qed
  have 3: "inv_owner ?s"
    using i unfolding inv_def inv_owner_def by (simp add: pd us)
  have 4: "inv_handle ?s"
    unfolding inv_handle_def
  proof (intro allI impI)
    fix c' v k assume "users ?s c' = Some v" "reminder v = Some k"
    with i have "k < length (timers s) \<and> t_chat (timers s ! k) = c'"
      unfolding inv_def inv_handle_def by (simp add: us)
    then show "k < length (timers ?s) \<and> t_chat (timers ?s ! k) = c'"
      by (cases "k = h") (simp_all add: tm)
  qed
  have 5: "inv_count ?s"
    unfolding inv_count_def
  proof
    fix c'
    from i consider "arms c' (trace s) \<le> cancels c' (trace s)"
      | v k where "users s c' = Some v" "reminder v = Some k" "t_status (timers s ! k) \<noteq> Cancelled"
      unfolding inv_def inv_count_def by blast
    then show "arms c' (trace ?s) \<le> cancels c' (trace ?s)
        \<or> (\<exists>u h. users ?s c' = Some u \<and> reminder u = Some h
               \<and> t_status (timers ?s ! h) \<noteq> Cancelled)"
    proof cases
      case 1
      then show ?thesis by (simp add: tr is_arm_def is_cancel_def)
    next
      case 2
      with i have "k < length (timers s)" unfolding inv_def inv_handle_def by blast
      with 2 st have "t_status (timers ?s ! k) \<noteq> Cancelled"
        by (cases "k = h") (simp_all add: tm)
      with 2 show ?thesis by (auto simp: us)
    qed
  qed
  from 1 2 3 4 5 show ?thesis by (simp add: inv_def)
qed

lemma inv_setdefault: "inv s \<Longrightarrow> inv (setdefault c s)"
proof (cases "users s c")
  case (Some u)
  assume "inv s"
  with Some show ?thesis by (simp add: setdefault_def)
next
  case None
  assume i: "inv s"
  let ?s = "s\<lparr>users := (users s)(c \<mapsto> new_session)\<rparr>"
  from i None have ac: "arms c (trace s) \<le> cancels c (trace s)"
    unfolding inv_def inv_count_def by (metis option.distinct(1))
  have 3: "inv_owner ?s"
    using i None unfolding inv_def inv_owner_def by (metis option.distinct(1) pending_frame(3) fun_upd_other state.select_convs(1) state.surjective state.update_convs(1))
  have 4: "inv_handle ?s"
    using i unfolding inv_def inv_handle_def by (auto simp: new_session_def split: if_splits)
  have 5: "inv_count ?s"
    unfolding inv_count_def
  proof
    fix c'
    show "arms c' (trace ?s) \<le> cancels c' (trace ?s)
        \<or> (\<exists>u h. users ?s c' = Some u \<and> reminder u = Some h
               \<and> t_status (timers ?s ! h) \<noteq> Cancelled)"
    proof (cases "c' = c")
      case True
      with ac show ?thesis by simp
    next
      case False
      with i show ?thesis unfolding inv_def inv_count_def by simp
    qed
  qed
  from i 3 4 5 have "inv ?s" by (simp add: inv_def inv_live_def inv_hist_def)
  with None show ?thesis by (simp add: setdefault_def)
qed

lemma free_gpt:
  assumes "\<And>s k. P s \<Longrightarrow> P (s\<lparr>n_io := k\<rparr>)" and "\<And>s e. timer_free e \<Longrightarrow> P s \<Longrightarrow> P (emit e s)"
  shows "triple P (gpt env role ct) (\<lambda>_. P) P"
  using assms by (auto simp: triple_def gpt_def split: option.splits)

lemma free_send:
  assumes "\<And>s k. P s \<Longrightarrow> P (s\<lparr>n_io := k\<rparr>)" and "\<And>s e. timer_free e \<Longrightarrow> P s \<Longrightarrow> P (emit e s)"
  shows "triple P (send_message env c b kb) (\<lambda>_. P) P"
  using assms by (auto simp: triple_def send_message_def split: option.splits)

lemma free_answer:
  assumes "\<And>s k. P s \<Longrightarrow> P (s\<lparr>n_io := k\<rparr>)" and "\<And>s e. timer_free e \<Longrightarrow> P s \<Longrightarrow> P (emit e s)"
  shows "triple P (answer_callback_query env q) (\<lambda>_. P) P"
  using assms by (auto simp: triple_def answer_callback_query_def split: option.splits)

lemma io_inv:
  "triple inv (gpt env role ct) (\<lambda>_. inv) inv"
  "triple inv (send_message env c b kb) (\<lambda>_. inv) inv"
  "triple inv (answer_callback_query env q) (\<lambda>_. inv) inv"
  by (rule free_gpt free_send free_answer; simp add: inv_emit_free)+

lemma io_quiet:
  "triple (\<lambda>s. inv s \<and> quiet c s) (gpt env role ct) (\<lambda>_ s. inv s \<and> quiet c s) inv"
  "triple (\<lambda>s. inv s \<and> quiet c s) (send_message env c' b kb) (\<lambda>_ s. inv s \<and> quiet c s) inv"
  by (rule triple_weaken[OF free_gpt[where P="\<lambda>s. inv s \<and> quiet c s"]]
      triple_weaken[OF free_send[where P="\<lambda>s. inv s \<and> quiet c s"]];
      simp add: inv_emit_free quiet_emit_free)+

lemma users_emit: "users (emit e s) = users s"
  by (simp add: emit_def)

lemma io_owned:
  "triple (\<lambda>s. inv s \<and> quiet c s \<and> users s c \<noteq> None) (gpt env role ct)
     (\<lambda>_ s. inv s \<and> quiet c s \<and> users s c \<noteq> None) inv"
  "triple (\<lambda>s. inv s \<and> quiet c s \<and> users s c \<noteq> None) (send_message env c' b kb)
     (\<lambda>_ s. inv s \<and> quiet c s \<and> users s c \<noteq> None) inv"
  by (rule triple_weaken[OF free_gpt[where P="\<lambda>s. inv s \<and> quiet c s \<and> users s c \<noteq> None"]]
      triple_weaken[OF free_send[where P="\<lambda>s. inv s \<and> quiet c s \<and> users s c \<noteq> None"]];
      simp add: inv_emit_free quiet_emit_free users_emit)+

lemma create_inv:
  "triple (\<lambda>s. inv s \<and> quiet c s \<and> users s c \<noteq> None) (create_reminder c tid) (\<lambda>_. inv) inv"
  by (rule tripleI) (auto simp: create_reminder_def Let_def inv_create split: option.splits)

lemma next_task_inv:
  assumes "inv s \<and> quiet c s"
  shows "inv (snd (next_task c' s)) \<and> quiet c (snd (next_task c' s))"
  using assms by (auto simp: next_task_def Let_def inv_users split: option.splits)

lemma next_task_owned: "users s c \<noteq> None \<Longrightarrow> users (snd (next_task c' s)) c \<noteq> None"
  by (auto simp: next_task_def Let_def split: option.splits)

lemma start_focus_owned:
  "triple (\<lambda>s. inv s \<and> quiet c s \<and> users s c \<noteq> None) (start_focus env c) (\<lambda>_. inv) inv"
proof (rule start_focus_triple[where ?P1.0="\<lambda>s. inv s \<and> quiet c s \<and> users s c \<noteq> None"])
  show "inv (snd (next_task c s)) \<and> quiet c (snd (next_task c s))
      \<and> users (snd (next_task c s)) c \<noteq> None"
    if "inv s \<and> quiet c s \<and> users s c \<noteq> None" for s
    using that next_task_inv[of s c c] next_task_owned[of s c c] by simp
  show "triple (\<lambda>s. inv s \<and> quiet c s \<and> users s c \<noteq> None)
      (send_message env c MsgDayComplete None) (\<lambda>_. inv) inv"
    by (rule triple_weaken[OF io_owned(2)[where c=c]]) simp_all
  show "triple (\<lambda>s. inv s \<and> quiet c s \<and> users s c \<noteq> None)
        (andthen (gpt env (lit ''coach'') (lit ''Start focusing on: '' @ task_text t))
          (\<lambda>msg. andthen (send_message env c (MsgText msg) (Some (build_keyboard (task_id t))))
            (\<lambda>_. create_reminder c (task_id t)))) (\<lambda>_. inv) inv" for t :: task
    by (rule triple_andthen[OF io_owned(1)[where c=c]] triple_andthen[OF io_owned(2)[where c=c]]
        create_inv)+
qed

text \<open>For a chat without a session \<open>next_task\<close> returns nothing and no reminder is armed.\<close>

lemma start_focus_inv:
  "triple (\<lambda>s. inv s \<and> quiet c s) (start_focus env c) (\<lambda>_. inv) inv"
proof -
  have "case start_focus env c s of (Ok x, s') \<Rightarrow> inv s' | (Raise e, s') \<Rightarrow> inv s'"
    if p: "inv s \<and> quiet c s" for s
  proof (cases "users s c")
    case None
    then have "start_focus env c s = send_message env c MsgDayComplete None s"
      by (simp add: start_focus_def next_task_def)
    with io_inv(2)[of env c MsgDayComplete None] p show ?thesis
      by (simp add: triple_def)
  next
    case (Some u)
    with start_focus_owned[of c env] p show ?thesis
      by (simp add: triple_def)
  qed
  then show ?thesis by (simp add: triple_def)
qed

lemma mark_done_inv:
  "triple inv (mark_done c tid) (\<lambda>_ s. inv s \<and> quiet c s) inv"
proof (rule tripleI)
  fix s x s' assume i: "inv s" and m: "mark_done c tid s = (Ok x, s')"
  then obtain u where u: "users s c = Some u"
    and s': "s' = (case reminder u of
                    None \<Rightarrow> s\<lparr>users := (users s)(c \<mapsto> u\<lparr>tasks := mark_first tid (tasks u)\<rparr>)\<rparr>
                  | Some h \<Rightarrow>
                      if \<not> cancelled h (s\<lparr>users := (users s)(c \<mapsto> u\<lparr>tasks := mark_first tid (tasks u)\<rparr>)\<rparr>)
                      then cancel c h (s\<lparr>users := (users s)(c \<mapsto> u\<lparr>tasks := mark_first tid (tasks u)\<rparr>)\<rparr>)
                      else s\<lparr>users := (users s)(c \<mapsto> u\<lparr>tasks := mark_first tid (tasks u)\<rparr>)\<rparr>)"
    by (auto simp: mark_done_def get_task_def Let_def split: option.splits)
  let ?u = "u\<lparr>tasks := mark_first tid (tasks u)\<rparr>"
  let ?s = "s\<lparr>users := (users s)(c \<mapsto> ?u)\<rparr>"
  have i1: "inv ?s" using i u by (rule inv_users) simp
  have u1: "users ?s c = Some ?u" by simp
  show "inv s' \<and> quiet c s'"
  proof (cases "reminder u")
    case None
    with s' i1 quiet_of_none[OF i1 u1] show ?thesis by simp
  next
    case (Some h)
    show ?thesis
    proof (cases "cancelled h ?s")
      case True
      with Some s' i1 quiet_of_cancelled[OF i1 u1 _ True] show ?thesis by simp
    next
      case False
      with Some s' inv_cancel[OF i1 u1, of h] show ?thesis by simp
    qed
  qed
next
  fix s e s' assume i: "inv s" and m: "mark_done c tid s = (Raise e, s')"
  then have "s' = s"
    by (auto simp: mark_done_def get_task_def Let_def split: option.splits if_splits)
  with i show "inv s'" by simp
qed

lemma add_tasks_inv:
  "triple inv (add_tasks_from_morning env c raw) (\<lambda>_ s. inv s \<and> quiet c s) inv"
proof (rule tripleI)
  fix s x s' assume i: "inv s" and m: "add_tasks_from_morning env c raw s = (Ok x, s')"
  then obtain u where u: "users s c = Some u"
    by (auto simp: add_tasks_from_morning_def split: option.splits)
  let ?s1 = "case reminder u of None \<Rightarrow> s | Some h \<Rightarrow> cancel c h s"
  let ?u = "u\<lparr>tasks := fst (build_queue env (n_uuid s) raw), pointer := 0\<rparr>"
  from m have s': "s' = ?s1\<lparr>users := (users s)(c \<mapsto> ?u),
      n_uuid := snd (build_queue env (n_uuid s) raw)\<rparr>"
    by (simp add: add_tasks_eq[OF u])
  have 1: "inv ?s1 \<and> quiet c ?s1"
  proof (cases "reminder u")
    case None
    with i quiet_of_none[OF i u] show ?thesis by simp
  next
    case (Some h)
    with inv_cancel[OF i u, of h] show ?thesis by simp
  qed
  have u1: "users ?s1 c = Some u" "users ?s1 = users s"
    using u by (simp_all split: option.splits)
  from 1 have "inv (?s1\<lparr>users := (users ?s1)(c \<mapsto> ?u)\<rparr>)"
    by (intro inv_users[OF _ u1(1)]) simp_all
  with 1 show "inv s' \<and> quiet c s'"
    by (simp add: s' u1(2))
next
  fix s e s' assume i: "inv s" and m: "add_tasks_from_morning env c raw s = (Raise e, s')"
  then have "s' = s"
    by (auto simp: add_tasks_from_morning_def Let_def split: option.splits prod.splits)
  with i show "inv s'" by simp
qed


lemma get_task_inv: "triple inv (get_task c tid) (\<lambda>_. inv) inv"
  by (rule tripleI) (auto simp: get_task_def split: option.splits)

lemma handle_callback_inv: "triple inv (handle_callback env cq) (\<lambda>_. inv) inv"
proof (cases "split_colon (case cq_data cq of None \<Rightarrow> [] | Some d \<Rightarrow> d)")
  case None
  then show ?thesis by (simp add: handle_callback_def triple_def)
next
  case (Some p)
  obtain action tid where p: "p = (action, tid)" by (cases p)
  have dn: "triple inv
      (andthen (mark_done (cq_from cq) tid)
         (\<lambda>_. andthen (send_message env (cq_from cq) MsgMarkedDone None)
           (\<lambda>_. andthen (start_focus env (cq_from cq)) (\<lambda>_ s'. (Ok ok_true, s')))))
      (\<lambda>_. inv) inv"
    by (rule triple_andthen[OF mark_done_inv] triple_andthen[OF io_quiet(2)[where c="cq_from cq"]]
        triple_andthen[OF start_focus_inv] triple_return)+
  have st: "triple inv
      (andthen (get_task (cq_from cq) tid)
         (\<lambda>t. andthen (gpt env (lit ''stuck'') (lit ''I'm stuck on: '' @ task_text t))
           (\<lambda>tip. andthen
              (send_message env (cq_from cq) (MsgText tip) (Some (build_keyboard (task_id t))))
              (\<lambda>_ s'. (Ok ok_true, s')))))
      (\<lambda>_. inv) inv"
    by (rule triple_andthen[OF get_task_inv] triple_andthen[OF io_inv(1)]
        triple_andthen[OF io_inv(2)] triple_return)+
  have "triple inv
      (andthen (answer_callback_query env (cq_id cq))
        (\<lambda>_. if action = lit ''done'' then
                andthen (mark_done (cq_from cq) tid)
                  (\<lambda>_. andthen (send_message env (cq_from cq) MsgMarkedDone None)
                    (\<lambda>_. andthen (start_focus env (cq_from cq)) (\<lambda>_ s'. (Ok ok_true, s'))))
              else if action = lit ''stuck'' then
                andthen (get_task (cq_from cq) tid)
                  (\<lambda>t. andthen (gpt env (lit ''stuck'') (lit ''I'm stuck on: '' @ task_text t))
                    (\<lambda>tip. andthen
                       (send_message env (cq_from cq) (MsgText tip)
                          (Some (build_keyboard (task_id t))))
                       (\<lambda>_ s'. (Ok ok_true, s'))))
              else (\<lambda>s'. (Ok ok_true, s'))))
      (\<lambda>_. inv) inv"
    by (rule triple_andthen[OF io_inv(3)]) (intro triple_if dn st triple_return)
  then show ?thesis
    by (simp add: handle_callback_def Some p triple_def)
qed

lemma handle_message_inv: "triple inv (handle_message env c raw) (\<lambda>_. inv) inv"
proof -
  have a: "triple inv (andthen (send_message env c b None) (\<lambda>_ s'. (Ok ok_true, s')))
      (\<lambda>_. inv) inv" for b
    by (rule triple_andthen[OF io_inv(2)] triple_return)+
  have m: "triple inv
      (andthen (add_tasks_from_morning env c (strip raw))
         (\<lambda>_. andthen (gpt env (lit ''ack'') (lit ''I've planned my goals for today''))
           (\<lambda>ack. andthen (send_message env c (MsgText ack) None)
             (\<lambda>_. andthen (start_focus env c) (\<lambda>_ s'. (Ok ok_true, s'))))))
      (\<lambda>_. inv) inv"
    by (rule triple_andthen[OF add_tasks_inv] triple_andthen[OF io_quiet(1)[where c=c]]
        triple_andthen[OF io_quiet(2)[where c=c]] triple_andthen[OF start_focus_inv]
        triple_return)+
  have "case handle_message env c raw s of (Ok x, s') \<Rightarrow> inv s' | (Raise e, s') \<Rightarrow> inv s'"
    if i: "inv s" for s
  proof -
    from i have i0: "inv (setdefault c s)" by (rule inv_setdefault)
    show ?thesis
      using a[of MsgWelcome] a[of MsgFallback] m i0
      by (simp add: handle_message_def Let_def triple_def)
  qed
  then show ?thesis by (simp add: triple_def)
qed

lemma triple_snd: "triple P m (\<lambda>_. P) P \<Longrightarrow> P s \<Longrightarrow> P (snd (m s))"
  by (cases "m s"; cases "fst (m s)") (auto simp: triple_def)

lemma webhook_inv: "inv s \<Longrightarrow> inv (snd (telegram_webhook env req s))"
  using triple_snd[OF handle_callback_inv, of s env] triple_snd[OF handle_message_inv, of s env]
  by (simp add: telegram_webhook_def split: option.splits)

lemma remind_body_inv:
  "triple (\<lambda>s. inv s \<and> timers s = T) (remind_body env c tid) (\<lambda>_ s. inv s \<and> timers s = T)
     (\<lambda>s. inv s \<and> timers s = T)"
proof -
  have te: "timers (emit e s) = timers s" for e s by (simp add: emit_def)
  have g: "triple (\<lambda>s. inv s \<and> timers s = T) (gpt env role ct) (\<lambda>_ s. inv s \<and> timers s = T)
      (\<lambda>s. inv s \<and> timers s = T)" for role ct
    by (rule free_gpt) (simp_all add: inv_emit_free te)
  have sm: "triple (\<lambda>s. inv s \<and> timers s = T) (send_message env c b kb)
      (\<lambda>_ s. inv s \<and> timers s = T) (\<lambda>s. inv s \<and> timers s = T)" for b kb
    by (rule free_send) (simp_all add: inv_emit_free te)
  have b: "triple (\<lambda>s. inv s \<and> timers s = T)
      (andthen (gpt env (lit ''remind'') (lit ''I haven't finished: '' @ task_text t))
         (\<lambda>nud. andthen
            (send_message env c (MsgText nud) (Some (build_keyboard (task_id t))))
            (\<lambda>_ s'. (Ok True, s'))))
      (\<lambda>_ s. inv s \<and> timers s = T) (\<lambda>s. inv s \<and> timers s = T)" for t :: task
    by (rule triple_andthen[OF g] triple_andthen[OF sm] triple_return)+
  show ?thesis
    using b by (auto simp: triple_def remind_body_def split: option.splits)
qed

lemma remind_fire_inv:
  assumes i: "inv s"
  shows "inv (remind_fire env h s)"
proof (cases "h < length (timers s) \<and> t_status (timers s ! h) = Pending")
  case False
  with i show ?thesis by (auto simp: remind_fire_def)
next
  case True
  obtain r s' where b: "remind_body env (t_chat (timers s ! h)) (t_task (timers s ! h)) s = (r, s')"
    by (cases "remind_body env (t_chat (timers s ! h)) (t_task (timers s ! h)) s")
  have k: "inv s' \<and> timers s' = timers s"
    using remind_body_inv[where T="timers s" and env=env and c="t_chat (timers s ! h)"
        and tid="t_task (timers s ! h)"] i b
    by (cases r) (auto simp: triple_def)
  show ?thesis
  proof (cases r)
    case (Raise e)
    with True b k inv_exit[of s' h "Failed e"] show ?thesis
      by (simp add: remind_fire_def)
  next
    case (Ok x)
    with True b k inv_exit[of s' h Finished] show ?thesis
      by (cases x) (simp_all add: remind_fire_def)
  qed
qed

lemma step_inv: "inv s \<Longrightarrow> inv (step env s ev)"
  by (cases ev) (simp_all add: step_def webhook_inv remind_fire_inv)

lemma run_inv: "inv s \<Longrightarrow> inv (run env evs s)"
  unfolding run_def by (induction evs arbitrary: s) (simp_all add: step_inv)

lemma pending_count:
  "length (filter (\<lambda>t. t_chat t = c \<and> t_status t = Pending) (timers s)) = card (pending s c)"
  by (simp add: length_filter_conv_card pending_def)

lemma goals_not_start: "lower goals_text \<noteq> lit ''/start''"
proof -
  have "length (lower goals_text) \<noteq> length (lit ''/start'')"
    by (simp add: lower_def goals_text_def lit_def)
  then show ?thesis by auto
qed

lemma goals_queue:
  "build_queue calm_env 0 goals_text =
     ([\<lparr>task_id = [0x75], task_text = lit ''Write report'', task_prio = Top, task_done = False\<rparr>,
       \<lparr>task_id = [0x75, 0x75], task_text = lit ''Call Bob'', task_prio = Mid, task_done = False\<rparr>,
       \<lparr>task_id = [0x75, 0x75, 0x75], task_text = lit ''Email team'', task_prio = Mid,
          task_done = False\<rparr>,
       \<lparr>task_id = [0x75, 0x75, 0x75, 0x75], task_text = lit ''Backup files'', task_prio = Mid,
          task_done = False\<rparr>,
       \<lparr>task_id = [0x75, 0x75, 0x75, 0x75, 0x75], task_text = lit ''Clean desk'',
          task_prio = Extra, task_done = False\<rparr>], 5)"
  by (simp add: build_queue_eq goals_lines calm_env_def)

lemma run_goals:
  "run calm_env [Webhook (Some (text_update 7 goals_text))] init_state =
     \<lparr>users = [7 \<mapsto> \<lparr>tasks = fst (build_queue calm_env 0 goals_text), pointer = 0,
                       reminder = Some 0\<rparr>],
      timers = [\<lparr>t_chat = 7, t_task = [0x75], t_status = Pending\<rparr>],
      n_uuid = 5, n_io = 4,
      trace = [Generated (lit ''ack'') (lit ''I've planned my goals for today''),
               Sent 7 (MsgText (lit ''Go!'')) None,
               Generated (lit ''coach'') (lit ''Start focusing on: '' @ lit ''Write report''),
               Sent 7 (MsgText (lit ''Go!''))
                 (Some [(LabelDone, lit ''done:'' @ [0x75]), (LabelStuck, lit ''stuck:'' @ [0x75])]),
               Armed 7 0 [0x75]]\<rparr>"
proof -
  let ?Q = "fst (build_queue calm_env 0 goals_text)"
  let ?s0 = "\<lparr>users = [7 \<mapsto> new_session], timers = [], n_uuid = 0, n_io = 0, trace = []\<rparr>"
  let ?s1 = "\<lparr>users = [7 \<mapsto> \<lparr>tasks = ?Q, pointer = 0, reminder = None\<rparr>], timers = [],
              n_uuid = 5, n_io = 0, trace = []\<rparr>"
  let ?s3 = "\<lparr>users = [7 \<mapsto> \<lparr>tasks = ?Q, pointer = 0, reminder = None\<rparr>], timers = [],
              n_uuid = 5, n_io = Suc (Suc 0),
              trace = [Generated (lit ''ack'') (lit ''I've planned my goals for today''),
                       Sent 7 (MsgText (lit ''Go!'')) None]\<rparr>"
  have ne: "goals_text \<noteq> []" by (simp add: goals_text_def lit_def)
  have s0: "setdefault 7 init_state = ?s0"
    by (simp add: setdefault_def init_state_def)
  have u0: "users ?s0 7 = Some new_session" by simp
  have a: "add_tasks_from_morning calm_env 7 goals_text ?s0 = (Ok (), ?s1)"
    unfolding add_tasks_eq[OF u0] by (simp add: new_session_def goals_queue)
  have g: "gpt calm_env r ct s = (Ok (lit ''Go!''), emit (Generated r ct) (s\<lparr>n_io := Suc (n_io s)\<rparr>))"
    for r ct s
    by (simp add: gpt_def calm_env_def strip_go)
  have sm: "send_message calm_env c b kb s = (Ok (), emit (Sent c b kb) (s\<lparr>n_io := Suc (n_io s)\<rparr>))"
    for c b kb s
    by (simp add: send_message_def calm_env_def)
  have q0: "?Q ! 0 = \<lparr>task_id = [0x75], task_text = lit ''Write report'', task_prio = Top,
      task_done = False\<rparr>" "0 < length ?Q" "?Q \<noteq> []"
    by (simp_all add: goals_queue)
  have adv: "advance ?Q 0 = 0"
    by (rule advance_stop) (simp add: q0)
  have nt: "next_task 7 ?s3 = (Some (?Q ! 0), ?s3)"
    by (simp add: next_task_def Let_def adv q0(2,3))
  have sf: "start_focus calm_env 7 ?s3 =
     (Ok (), \<lparr>users = [7 \<mapsto> \<lparr>tasks = ?Q, pointer = 0, reminder = Some 0\<rparr>],
      timers = [\<lparr>t_chat = 7, t_task = [0x75], t_status = Pending\<rparr>],
      n_uuid = 5, n_io = 4,
      trace = [Generated (lit ''ack'') (lit ''I've planned my goals for today''),
               Sent 7 (MsgText (lit ''Go!'')) None,
               Generated (lit ''coach'') (lit ''Start focusing on: '' @ lit ''Write report''),
               Sent 7 (MsgText (lit ''Go!''))
                 (Some [(LabelDone, lit ''done:'' @ [0x75]), (LabelStuck, lit ''stuck:'' @ [0x75])]),
               Armed 7 0 [0x75]]\<rparr>)"
    unfolding start_focus_def nt
    by (simp add: q0(1) andthen_def g sm emit_def create_reminder_def build_keyboard_def Let_def)
  have hm: "handle_message calm_env 7 goals_text init_state =
      andthen (add_tasks_from_morning calm_env 7 goals_text)
         (\<lambda>_. andthen (gpt calm_env (lit ''ack'') (lit ''I've planned my goals for today''))
           (\<lambda>ack. andthen (send_message calm_env 7 (MsgText ack) None)
             (\<lambda>_. andthen (start_focus calm_env 7) (\<lambda>_ s'. (Ok ok_true, s'))))) ?s0"
    using goals_not_start goals_morning
    by (simp add: handle_message_def Let_def goals_stripped s0)
  have "snd (handle_message calm_env 7 goals_text init_state) = snd (start_focus calm_env 7 ?s3)"
    unfolding hm by (simp add: andthen_def a g sm emit_def sf)
  then show ?thesis
    using ne by (simp add: run_def step_def telegram_webhook_def text_update_def sf)
qed

lemma run_goals_done:
  "trace (run calm_env [Webhook (Some (text_update 7 goals_text)),
                        Webhook (Some (button_update 7 (lit ''done:'' @ [0x75])))] init_state) =
     [Generated (lit ''ack'') (lit ''I've planned my goals for today''),
      Sent 7 (MsgText (lit ''Go!'')) None,
      Generated (lit ''coach'') (lit ''Start focusing on: '' @ lit ''Write report''),
      Sent 7 (MsgText (lit ''Go!''))
        (Some [(LabelDone, lit ''done:'' @ [0x75]), (LabelStuck, lit ''stuck:'' @ [0x75])]),
      Armed 7 0 [0x75],
      Answered (lit ''q''),
      CancelCall 7 0,
      Sent 7 MsgMarkedDone None,
      Generated (lit ''coach'') (lit ''Start focusing on: '' @ lit ''Call Bob''),
      Sent 7 (MsgText (lit ''Go!''))
        (Some [(LabelDone, lit ''done:'' @ [0x75, 0x75]), (LabelStuck, lit ''stuck:'' @ [0x75, 0x75])]),
      Armed 7 1 [0x75, 0x75]]"
proof -
  have r: "run calm_env [Webhook (Some (text_update 7 goals_text)),
                        Webhook (Some (button_update 7 (lit ''done:'' @ [0x75])))] init_state
      = step calm_env (run calm_env [Webhook (Some (text_update 7 goals_text))] init_state)
          (Webhook (Some (button_update 7 (lit ''done:'' @ [0x75]))))"
    by (simp add: run_def)
  have adv: "advance (\<lparr>task_id = [0x75], task_text = a, task_prio = Top, task_done = True\<rparr>
             # \<lparr>task_id = [0x75, 0x75], task_text = b, task_prio = Mid, task_done = False\<rparr> # ts) 0 = 1"
    for a b ts
    by (simp add: advance.simps)
  show ?thesis
    unfolding r run_goals goals_queue fst_conv
    by (simp add: step_def telegram_webhook_def button_update_def handle_callback_def split_done
        andthen_def answer_callback_query_def calm_env_def emit_def mark_done_def get_task_def
        Let_def cancelled_def cancel_def send_message_def start_focus_def
        next_task_def adv gpt_def strip_go create_reminder_def build_keyboard_def)
qed



end
